theory Spec2Isabelle
  imports Main "HOL-Library.AList"
begin

section \<open>Text\<close>

text \<open>
  Template text and identifiers are JavaScript strings. They are modelled as
  \<^typ>\<open>string\<close>, one \<^typ>\<open>char\<close> per code unit, for code units below 256.
  Positions are indices into the list, as in the source.
\<close>

text \<open>The class \<open>\s\<close> of the regular expressions and of \<open>trim\<close>, on code units below 256.\<close>

definition is_space :: "char \<Rightarrow> bool" where
  "is_space c \<longleftrightarrow> c \<in> set [CHR 0x09, CHR 0x0A, CHR 0x0B, CHR 0x0C, CHR 0x0D, CHR 0x20, CHR 0xA0]"

text \<open>The class \<open>[\w.]\<close>: letters, digits, underscore and the dot.\<close>

definition is_word :: "char \<Rightarrow> bool" where
  "is_word c \<longleftrightarrow> c \<in> set ''abcdefghijklmnopqrstuvwxyzABCDEFGHIJKLMNOPQRSTUVWXYZ0123456789_''"

definition is_path_char :: "char \<Rightarrow> bool" where
  "is_path_char c \<longleftrightarrow> is_word c \<or> c = CHR ''.''"

definition trim :: "string \<Rightarrow> string" where
  "trim s = rev (dropWhile is_space (rev (dropWhile is_space s)))"

text \<open>\<open>s.startsWith(p)\<close>, and the rest of \<open>s\<close> after the prefix \<open>p\<close>.\<close>

fun starts_with :: "string \<Rightarrow> string \<Rightarrow> bool" where
  "starts_with [] s = True"
| "starts_with (p # ps) [] = False"
| "starts_with (p # ps) (c # cs) = (p = c \<and> starts_with ps cs)"

definition strip_prefix :: "string \<Rightarrow> string \<Rightarrow> string option" where
  "strip_prefix p s = (if starts_with p s then Some (drop (length p) s) else None)"

text \<open>Offset of the first occurrence of a needle in a text, \<open>None\<close> for \<open>-1\<close>.\<close>

fun find_sub :: "string \<Rightarrow> string \<Rightarrow> nat option" where
  "find_sub needle [] = (if needle = [] then Some 0 else None)"
| "find_sub needle (c # cs) =
     (if starts_with needle (c # cs) then Some 0 else map_option Suc (find_sub needle cs))"

text \<open>\<open>text.indexOf(needle, pos)\<close>, for a needle that is not empty.\<close>

definition indexOf :: "string \<Rightarrow> string \<Rightarrow> nat \<Rightarrow> nat option" where
  "indexOf text needle pos = map_option (\<lambda>i. i + pos) (find_sub needle (drop pos text))"

text \<open>\<open>text.slice(a, b)\<close> for indices that are not negative; empty when \<open>b \<le> a\<close>.\<close>

definition slice :: "string \<Rightarrow> nat \<Rightarrow> nat \<Rightarrow> string" where
  "slice text a b = take (b - a) (drop a text)"

text \<open>\<open>path.split('.')\<close>: never empty, the empty path gives one empty segment.\<close>

fun split_dot :: "string \<Rightarrow> string list" where
  "split_dot [] = [] # []"
| "split_dot (c # cs) =
     (if c = CHR ''.'' then [] # split_dot cs
      else (case split_dot cs of [] \<Rightarrow> [c] # [] | h # t \<Rightarrow> (c # h) # t))"

text \<open>Decimal digits of a natural number.\<close>

fun digit_char :: "nat \<Rightarrow> char" where
  "digit_char n = (''0123456789'' ! (n mod 10))"

fun nat_str :: "nat \<Rightarrow> string" where
  "nat_str n = (if n < 10 then [digit_char n] else nat_str (n div 10) @ [digit_char n])"

declare nat_str.simps [simp del]

fun join_comma :: "string list \<Rightarrow> string" where
  "join_comma [] = []"
| "join_comma [s] = s"
| "join_comma (s # t # ss) = s @ CHR '','' # join_comma (t # ss)"

section \<open>Numbers\<close>

text \<open>
  A number is held by what the program can see of it: whether it is \<open>NaN\<close>, an
  infinity or zero, and otherwise its sign and its shortest decimal form, the digits
  \<open>s\<close> (not zero, last digit not zero) and the position \<open>n\<close> of the decimal point, so that
  the value is \<open>s\<close> times ten to the power \<open>n - k\<close> for \<open>k\<close> digits. Every number of the language has exactly one
  such form; the program does no arithmetic on numbers.
\<close>

datatype jsnum =
    NaN
  | Infinity bool
  | Zero
  | Decimal bool nat int

instantiation jsnum :: zero
begin

definition zero_jsnum :: jsnum where
  "zero_jsnum = Zero"

instance ..

end

text \<open>
  \<open>Number::toString\<close> on the digits \<open>ds\<close> and the position \<open>n\<close>: plain digits with
  zeros appended, digits with a decimal point, a fraction with leading zeros, and the
  exponent form beyond 21 digits before or 6 zeros after the point.
\<close>

definition dec_str :: "string \<Rightarrow> int \<Rightarrow> string" where
  "dec_str ds n =
     (let k = int (length ds) in
      if k \<le> n \<and> n \<le> 21 then ds @ replicate (nat (n - k)) (CHR ''0'')
      else if 0 < n \<and> n \<le> 21 then take (nat n) ds @ CHR ''.'' # drop (nat n) ds
      else if - 6 < n \<and> n \<le> 0 then ''0.'' @ replicate (nat (- n)) (CHR ''0'') @ ds
      else (let e = n - 1;
                es = (if e < 0 then CHR ''-'' else CHR ''+'') # nat_str (nat \<bar>e\<bar>)
            in if k = 1 then ds @ CHR ''e'' # es
               else take 1 ds @ CHR ''.'' # drop 1 ds @ CHR ''e'' # es))"

fun num_str :: "jsnum \<Rightarrow> string" where
  "num_str NaN = ''NaN''"
| "num_str (Infinity negative) = (if negative then ''-Infinity'' else ''Infinity'')"
| "num_str Zero = ''0''"
| "num_str (Decimal negative s n) = (if negative then ''-'' else []) @ dec_str (nat_str s) n"

text \<open>The number that is a length: its digits without the zeros at the end.\<close>

definition num_of_nat :: "nat \<Rightarrow> jsnum" where
  "num_of_nat n =
     (if n = 0 then Zero
      else Decimal False
             (n div 10 ^ length (takeWhile (\<lambda>c. c = CHR ''0'') (rev (nat_str n))))
             (int (length (nat_str n))))"

section \<open>Values of the environment\<close>

text \<open>
  The values a lookup can reach: \<open>undefined\<close>, \<open>null\<close>, booleans, numbers, strings,
  arrays, plain objects, and what every object and array inherits: built-in functions
  (held by their name) and the prototype of the arrays. A plain object is the list of
  its own properties in insertion order, each key once.
\<close>

datatype jsval =
    Undefined
  | Null
  | JBool bool
  | JNum jsnum
  | JStr string
  | JList "jsval list"
  | JObj "(string \<times> jsval) list"
  | JFun string
  | JArrayProto

type_synonym env = "(string \<times> jsval) list"

text \<open>
  \<open>String(value)\<close>: an array joins its elements with commas, \<open>null\<close> and \<open>undefined\<close>
  elements giving the empty text; a plain object gives a fixed text; a built-in
  function gives its source text; the prototype of the arrays is an empty array.
\<close>

fun js_to_string :: "jsval \<Rightarrow> string" where
  "js_to_string Undefined = ''undefined''"
| "js_to_string Null = ''null''"
| "js_to_string (JBool b) = (if b then ''true'' else ''false'')"
| "js_to_string (JNum n) = num_str n"
| "js_to_string (JStr s) = s"
| "js_to_string (JList xs) =
     join_comma (map (\<lambda>v. if v = Undefined \<or> v = Null then [] else js_to_string v) xs)"
| "js_to_string (JObj m) = ''[object Object]''"
| "js_to_string (JFun name) = ''function '' @ name @ ''() { [native code] }''"
| "js_to_string JArrayProto = []"

subsection \<open>isTruthy\<close>

text \<open>The last line of \<open>isTruthy\<close> answers for objects and functions; the prototype
  of the arrays is an array of length zero.\<close>

fun isTruthy :: "jsval \<Rightarrow> bool" where
  "isTruthy Null = False"
| "isTruthy Undefined = False"
| "isTruthy (JBool b) = b"
| "isTruthy (JNum n) = (n \<noteq> 0)"
| "isTruthy (JStr s) = (length s > 0)"
| "isTruthy (JList xs) = (length xs > 0)"
| "isTruthy JArrayProto = False"
| "isTruthy (JObj m) = True"
| "isTruthy (JFun name) = True"

subsection \<open>Inherited members\<close>

text \<open>
  The operator \<open>in\<close> accepts inherited members as well as own ones. These are the
  members of \<open>Object.prototype\<close> and of \<open>Array.prototype\<close> (ECMAScript 2023) whose
  names are strings: built-in functions, and \<open>__proto__\<close>, which is \<open>null\<close> on
  \<open>Object.prototype\<close> itself.
\<close>

definition object_prototype :: "(string \<times> jsval) list" where
  "object_prototype =
     [(''constructor'', JFun ''Object''),
      (''__defineGetter__'', JFun ''__defineGetter__''),
      (''__defineSetter__'', JFun ''__defineSetter__''),
      (''hasOwnProperty'', JFun ''hasOwnProperty''),
      (''__lookupGetter__'', JFun ''__lookupGetter__''),
      (''__lookupSetter__'', JFun ''__lookupSetter__''),
      (''isPrototypeOf'', JFun ''isPrototypeOf''),
      (''propertyIsEnumerable'', JFun ''propertyIsEnumerable''),
      (''toString'', JFun ''toString''),
      (''valueOf'', JFun ''valueOf''),
      (''__proto__'', Null),
      (''toLocaleString'', JFun ''toLocaleString'')]"

definition array_prototype :: "(string \<times> jsval) list" where
  "array_prototype =
     (''constructor'', JFun ''Array'')
     # map (\<lambda>name. (name, JFun name))
         [''at'', ''concat'', ''copyWithin'', ''fill'', ''find'', ''findIndex'', ''findLast'',
          ''findLastIndex'', ''lastIndexOf'', ''pop'', ''push'', ''reverse'', ''shift'',
          ''unshift'', ''slice'', ''sort'', ''splice'', ''includes'', ''indexOf'', ''join'',
          ''keys'', ''entries'', ''values'', ''forEach'', ''filter'', ''flat'', ''flatMap'',
          ''map'', ''every'', ''some'', ''reduce'', ''reduceRight'', ''toReversed'',
          ''toSorted'', ''toSpliced'', ''with'', ''toLocaleString'', ''toString'']"

text \<open>What a plain object and what an array inherit under a name.\<close>

definition object_inherited :: "string \<Rightarrow> jsval option" where
  "object_inherited part =
     (if part = ''__proto__'' then Some (JObj object_prototype)
      else map_of object_prototype part)"

definition array_inherited :: "string \<Rightarrow> jsval option" where
  "array_inherited part =
     (if part = ''__proto__'' then Some JArrayProto
      else (case map_of array_prototype part of
              Some v \<Rightarrow> Some v
            | None \<Rightarrow> map_of object_prototype part))"

subsection \<open>getNestedValue\<close>

text \<open>
  One step of the walk: the test
  \<open>current && typeof current === 'object' && part in current\<close> and the read
  \<open>current[part]\<close>. \<open>None\<close> is the branch that returns \<open>undefined\<close>. A plain object
  answers with its own property, else with the inherited member. An array answers for
  \<open>length\<close>, for its indices (in canonical decimal form), else with the inherited
  member. A function is not of type object.
\<close>

fun lookup_part :: "jsval \<Rightarrow> string \<Rightarrow> jsval option" where
  "lookup_part (JObj m) part =
     (case map_of m part of
        Some v \<Rightarrow> Some v
      | None \<Rightarrow> object_inherited part)"
| "lookup_part (JList xs) part =
     (if part = ''length'' then Some (JNum (num_of_nat (length xs)))
      else (case find (\<lambda>i. nat_str i = part) [0..<length xs] of
              Some i \<Rightarrow> Some (xs ! i)
            | None \<Rightarrow> array_inherited part))"
| "lookup_part JArrayProto part =
     (if part = ''length'' then Some (JNum Zero)
      else if part = ''__proto__'' then Some (JObj object_prototype)
      else array_inherited part)"
| "lookup_part v part = None"

fun walk_parts :: "jsval \<Rightarrow> string list \<Rightarrow> jsval" where
  "walk_parts current [] = current"
| "walk_parts current (part # parts) =
     (case lookup_part current part of
        Some v \<Rightarrow> walk_parts v parts
      | None \<Rightarrow> Undefined)"

definition getNestedValue :: "env \<Rightarrow> string \<Rightarrow> jsval" where
  "getNestedValue obj path = walk_parts (JObj obj) (split_dot path)"

section \<open>Regular expressions of the renderer\<close>

text \<open>
  Each pattern is matched at the start of a text; the result is the captures and the
  length of the match. The character classes that follow each other in the patterns
  are disjoint, so the greedy match is the only one and no backtracking is modelled.
\<close>

text \<open>\<open>variablePattern\<close>: two opening braces, a path inside optional spaces, two
  closing braces. The capture keeps the spaces.\<close>

definition match_var :: "string \<Rightarrow> (string \<times> nat) option" where
  "match_var s =
     (case strip_prefix ''{{'' s of
        None \<Rightarrow> None
      | Some s1 \<Rightarrow>
          (let ws1 = takeWhile is_space s1; s2 = dropWhile is_space s1;
               nm = takeWhile is_path_char s2; s3 = dropWhile is_path_char s2;
               ws2 = takeWhile is_space s3; s4 = dropWhile is_space s3
           in if nm \<noteq> [] \<and> starts_with ''}}'' s4
              then Some (ws1 @ nm @ ws2, length ws1 + length nm + length ws2 + 4)
              else None))"

text \<open>\<open>conditionalPattern\<close>: the opening marker with its condition, then the
  shortest body that ends at a closing marker. Captures: condition and body.\<close>

definition match_if :: "string \<Rightarrow> ((string \<times> string) \<times> nat) option" where
  "match_if s =
     (case strip_prefix ''{{#if'' s of
        None \<Rightarrow> None
      | Some s1 \<Rightarrow>
          (let ws = takeWhile is_space s1; s2 = dropWhile is_space s1;
               nm = takeWhile is_path_char s2; s3 = dropWhile is_path_char s2
           in if ws \<noteq> [] \<and> nm \<noteq> [] \<and> starts_with ''}}'' s3
              then (case find_sub ''{{/if}}'' (drop 2 s3) of
                      None \<Rightarrow> None
                    | Some k \<Rightarrow>
                        Some ((nm, take k (drop 2 s3)), length ws + length nm + k + 14))
              else None))"

text \<open>The header of a loop after its opening marker: spaces, the source path, spaces,
  \<open>as\<close>, spaces, the item name (word characters only).\<close>

definition match_header :: "string \<Rightarrow> ((string \<times> string) \<times> nat) option" where
  "match_header s =
     (let ws1 = takeWhile is_space s; s1 = dropWhile is_space s;
          nm = takeWhile is_path_char s1; s2 = dropWhile is_path_char s1;
          ws2 = takeWhile is_space s2; s3 = dropWhile is_space s2;
          s4 = drop 2 s3;
          ws3 = takeWhile is_space s4; s5 = dropWhile is_space s4;
          item = takeWhile is_word s5
      in if ws1 \<noteq> [] \<and> nm \<noteq> [] \<and> ws2 \<noteq> [] \<and> starts_with ''as'' s3
            \<and> ws3 \<noteq> [] \<and> item \<noteq> []
         then Some ((nm, item),
                length ws1 + length nm + length ws2 + 2 + length ws3 + length item)
         else None)"

text \<open>\<open>loopPattern\<close>: opening marker, header, closing braces, the shortest body that
  ends at a closing marker. Captures: source path, item name and body.\<close>

definition match_each :: "string \<Rightarrow> ((string \<times> string \<times> string) \<times> nat) option" where
  "match_each s =
     (case strip_prefix ''{{#each'' s of
        None \<Rightarrow> None
      | Some s1 \<Rightarrow>
          (case match_header s1 of
             None \<Rightarrow> None
           | Some ((nm, item), n) \<Rightarrow>
               (if starts_with ''}}'' (drop n s1)
                then (case find_sub ''{{/each}}'' (drop (n + 2) s1) of
                        None \<Rightarrow> None
                      | Some k \<Rightarrow>
                          Some ((nm, item, take k (drop (n + 2) s1)), 7 + n + 2 + k + 9))
                else None)))"

text \<open>\<open>header.match(...)\<close> without anchor: the leftmost position of the header where
  the header pattern matches.\<close>

fun search_header :: "string \<Rightarrow> (string \<times> string) option" where
  "search_header [] = map_option fst (match_header [])"
| "search_header (c # cs) =
     (case match_header (c # cs) of
        Some r \<Rightarrow> Some (fst r)
      | None \<Rightarrow> search_header cs)"

text \<open>
  A global scan with a pattern, as \<open>replace\<close> and a loop of \<open>exec\<close> do it: try the
  pattern at the current position; after a match of length \<open>n\<close> go on behind it,
  otherwise keep the character and move one position. No pattern here matches the
  empty text.
\<close>

fun regex_scan :: "(string \<Rightarrow> ('a \<times> nat) option) \<Rightarrow> string \<Rightarrow> (char + 'a) list" where
  "regex_scan m [] = []"
| "regex_scan m (c # cs) =
     (case m (c # cs) of
        None \<Rightarrow> Inl c # regex_scan m cs
      | Some (cap, n) \<Rightarrow> Inr cap # regex_scan m (drop (n - 1) cs))"

text \<open>\<open>text.replace(pattern, callback)\<close> and the captures of all matches.\<close>

definition regex_replace :: "(string \<Rightarrow> ('a \<times> nat) option) \<Rightarrow> ('a \<Rightarrow> string) \<Rightarrow> string \<Rightarrow> string" where
  "regex_replace m f text = concat (map (case_sum (\<lambda>c. [c]) f) (regex_scan m text))"

definition regex_matches :: "(string \<Rightarrow> ('a \<times> nat) option) \<Rightarrow> string \<Rightarrow> 'a list" where
  "regex_matches m text = concat (map (case_sum (\<lambda>c. []) (\<lambda>cap. [cap])) (regex_scan m text))"

section \<open>TemplateRenderer\<close>

definition processVariables :: "string \<Rightarrow> env \<Rightarrow> string" where
  "processVariables template variables =
     regex_replace match_var
       (\<lambda>varName. let v = getNestedValue variables (trim varName)
                  in if v \<noteq> Undefined then js_to_string v else [])
       template"

definition processConditionals :: "string \<Rightarrow> env \<Rightarrow> string" where
  "processConditionals template variables =
     regex_replace match_if
       (\<lambda>(condition, content).
          if isTruthy (getNestedValue variables (trim condition)) then content else [])
       template"

text \<open>The final clean-up of \<open>render\<close>: every remaining variable marker is removed.\<close>

definition cleanup :: "string \<Rightarrow> string" where
  "cleanup text = regex_replace match_var (\<lambda>_. []) text"

subsection \<open>processLoops\<close>

lemma starts_with_length: "starts_with p s \<Longrightarrow> length p \<le> length s"
  by (induction p s rule: starts_with.induct) auto

lemma find_sub_bound: "find_sub needle s = Some k \<Longrightarrow> k + length needle \<le> length s"
proof (induction s arbitrary: k)
  case Nil
  then show ?case by (simp split: if_splits)
next
  case (Cons c cs)
  show ?case
  proof (cases "starts_with needle (c # cs)")
    case True
    with Cons.prems starts_with_length [of needle "c # cs"] show ?thesis by simp
  next
    case False
    with Cons.prems obtain j where "find_sub needle cs = Some j" "k = Suc j" by auto
    with Cons.IH show ?thesis by fastforce
  qed
qed

lemma indexOf_bounds:
  assumes "indexOf text needle pos = Some i" and "needle \<noteq> []"
  shows "pos \<le> i \<and> i + length needle \<le> length text"
proof -
  from assms(1) obtain k where k: "find_sub needle (drop pos text) = Some k" "i = k + pos"
    by (auto simp: indexOf_def)
  from find_sub_bound [OF k(1)] assms(2) k(2) show ?thesis
    by (cases needle) auto
qed

text \<open>
  \<open>findMatchingEnd\<close>: the loop over \<open>depth\<close> and \<open>pos\<close>. \<open>None\<close> is the result \<open>-1\<close>.
\<close>

function findMatchingEnd_from :: "string \<Rightarrow> nat \<Rightarrow> nat \<Rightarrow> nat option" where
  "findMatchingEnd_from text depth pos =
     (if depth > 0 \<and> pos < length text then
        (case indexOf text ''{{/each}}'' pos of
           None \<Rightarrow> None
         | Some nextEnd \<Rightarrow>
             (case indexOf text ''{{#each'' pos of
                Some nextStart \<Rightarrow>
                  (if nextStart < nextEnd
                   then findMatchingEnd_from text (depth + 1) (nextStart + 7)
                   else if depth - 1 = 0 then Some (nextEnd + 9)
                   else findMatchingEnd_from text (depth - 1) (nextEnd + 9))
              | None \<Rightarrow>
                  (if depth - 1 = 0 then Some (nextEnd + 9)
                   else findMatchingEnd_from text (depth - 1) (nextEnd + 9))))
      else None)"
  by pat_completeness auto
termination
proof (relation "measure (\<lambda>(text, depth, pos). length text - pos)")
  show "wf (measure (\<lambda>(text, depth, pos). length text - pos))" by simp
next
  fix t :: string and depth pos nextEnd nextStart :: nat
  assume "0 < depth \<and> pos < length t"
    and "indexOf t ''{{#each'' pos = Some nextStart"
  then show "((t, depth + 1, nextStart + 7), (t, depth, pos))
      \<in> measure (\<lambda>(text, depth, pos). length text - pos)"
    using indexOf_bounds [of t "''{{#each''" pos nextStart] by auto
next
  fix t :: string and depth pos nextEnd nextStart :: nat
  assume "0 < depth \<and> pos < length t"
    and "indexOf t ''{{/each}}'' pos = Some nextEnd"
  then show "((t, depth - 1, nextEnd + 9), (t, depth, pos))
      \<in> measure (\<lambda>(text, depth, pos). length text - pos)"
    using indexOf_bounds [of t "''{{/each}}''" pos nextEnd] by auto
next
  fix t :: string and depth pos nextEnd :: nat
  assume "0 < depth \<and> pos < length t"
    and "indexOf t ''{{/each}}'' pos = Some nextEnd"
  then show "((t, depth - 1, nextEnd + 9), (t, depth, pos))
      \<in> measure (\<lambda>(text, depth, pos). length text - pos)"
    using indexOf_bounds [of t "''{{/each}}''" pos nextEnd] by auto
qed

declare findMatchingEnd_from.simps [simp del]

definition findMatchingEnd :: "string \<Rightarrow> nat \<Rightarrow> nat option" where
  "findMatchingEnd text startPos = findMatchingEnd_from text 1 startPos"

lemma findMatchingEnd_from_bounds:
  "findMatchingEnd_from t depth pos = Some e \<Longrightarrow> pos < e \<and> e \<le> length t"
proof (induction t depth pos rule: findMatchingEnd_from.induct)
  case (1 t depth pos)
  from "1.prems" have guard: "0 < depth \<and> pos < length t"
    by (subst (asm) findMatchingEnd_from.simps) (simp split: if_splits)
  from "1.prems" guard obtain nextEnd where ne: "indexOf t ''{{/each}}'' pos = Some nextEnd"
    by (subst (asm) findMatchingEnd_from.simps) (auto split: option.splits)
  from indexOf_bounds [OF ne] have be: "pos \<le> nextEnd" "nextEnd + 9 \<le> length t"
    by simp_all
  show ?case
  proof (cases "indexOf t ''{{#each'' pos")
    case None
    from "1.prems" guard ne None
    have "(depth - 1 = 0 \<and> e = nextEnd + 9)
        \<or> (depth - 1 \<noteq> 0 \<and> findMatchingEnd_from t (depth - 1) (nextEnd + 9) = Some e)"
      by (subst (asm) findMatchingEnd_from.simps) (auto split: if_splits)
    then show ?thesis
    proof
      assume "depth - 1 = 0 \<and> e = nextEnd + 9"
      with be show ?thesis by simp
    next
      assume a: "depth - 1 \<noteq> 0 \<and> findMatchingEnd_from t (depth - 1) (nextEnd + 9) = Some e"
      with "1.IH" guard ne None have "nextEnd + 9 < e \<and> e \<le> length t" by blast
      with be show ?thesis by simp
    qed
  next
    case (Some nextStart)
    from indexOf_bounds [OF Some] have bs: "pos \<le> nextStart" by simp
    from "1.prems" guard ne Some
    have "(nextStart < nextEnd \<and> findMatchingEnd_from t (depth + 1) (nextStart + 7) = Some e)
        \<or> (\<not> nextStart < nextEnd \<and> depth - 1 = 0 \<and> e = nextEnd + 9)
        \<or> (\<not> nextStart < nextEnd \<and> depth - 1 \<noteq> 0
            \<and> findMatchingEnd_from t (depth - 1) (nextEnd + 9) = Some e)"
      by (subst (asm) findMatchingEnd_from.simps) (auto split: if_splits)
    then consider
        (deeper) "nextStart < nextEnd" "findMatchingEnd_from t (depth + 1) (nextStart + 7) = Some e"
      | (found) "e = nextEnd + 9"
      | (shallower) "\<not> nextStart < nextEnd" "depth - 1 \<noteq> 0"
          "findMatchingEnd_from t (depth - 1) (nextEnd + 9) = Some e"
      by blast
    then show ?thesis
    proof cases
      case deeper
      with "1.IH" guard ne Some have "nextStart + 7 < e \<and> e \<le> length t" by blast
      with bs show ?thesis by simp
    next
      case found
      with be show ?thesis by simp
    next
      case shallower
      with "1.IH" guard ne Some have "nextEnd + 9 < e \<and> e \<le> length t" by blast
      with be show ?thesis by simp
    qed
  qed
qed

text \<open>The source of a loop is iterated only when it is an array.\<close>

fun loop_items :: "jsval \<Rightarrow> jsval list" where
  "loop_items (JList xs) = xs"
| "loop_items v = []"

text \<open>
  The body of a loop is rendered once per item, with the item bound to its name in a copy
  of the environment. The renderer is a parameter: it is \<open>render\<close> itself, which may
  not return (\<open>None\<close>).
\<close>

primrec render_items ::
  "(string \<Rightarrow> env \<Rightarrow> string option) \<Rightarrow> env \<Rightarrow> string \<Rightarrow> string \<Rightarrow> jsval list \<Rightarrow> string option" where
  "render_items rend variables itemName content [] = Some []"
| "render_items rend variables itemName content (item # items) =
     (case rend content (AList.update itemName item variables) of
        None \<Rightarrow> None
      | Some r \<Rightarrow> map_option (\<lambda>rest. r @ rest) (render_items rend variables itemName content items))"

text \<open>The scan of \<open>processLoops\<close>: its state is \<open>lastPos\<close> and \<open>result\<close>.\<close>

function processLoops_from ::
  "(string \<Rightarrow> env \<Rightarrow> string option) \<Rightarrow> env \<Rightarrow> string \<Rightarrow> nat \<Rightarrow> string \<Rightarrow> string option" where
  "processLoops_from rend variables template lastPos result =
     (case indexOf template ''{{#each'' lastPos of
        None \<Rightarrow> Some (result @ drop lastPos template)
      | Some startMatch \<Rightarrow>
          (case indexOf template ''}}'' startMatch of
             None \<Rightarrow>
               Some (result @ slice template lastPos startMatch @ drop startMatch template)
           | Some headerEnd \<Rightarrow>
               (case search_header (slice template (startMatch + 7) headerEnd) of
                  None \<Rightarrow>
                    processLoops_from rend variables template (headerEnd + 2)
                      (result @ slice template lastPos startMatch
                         @ slice template startMatch (headerEnd + 2))
                | Some (arrayVar, itemName) \<Rightarrow>
                    (case findMatchingEnd template (headerEnd + 2) of
                       None \<Rightarrow>
                         Some (result @ slice template lastPos startMatch
                                 @ drop startMatch template)
                     | Some endPos \<Rightarrow>
                         (case render_items rend variables itemName
                                 (slice template (headerEnd + 2) (endPos - 9))
                                 (loop_items (getNestedValue variables (trim arrayVar))) of
                            None \<Rightarrow> None
                          | Some out \<Rightarrow>
                              processLoops_from rend variables template endPos
                                (result @ slice template lastPos startMatch @ out))))))"
  by pat_completeness auto
termination
proof (relation "measure (\<lambda>(rend, variables, template, lastPos, result). length template - lastPos)")
  show "wf (measure (\<lambda>(rend :: string \<Rightarrow> env \<Rightarrow> string option, variables :: env,
      template :: string, lastPos :: nat, result :: string). length template - lastPos))"
    by simp
next
  fix rend :: "string \<Rightarrow> env \<Rightarrow> string option" and variables :: env
    and template result :: string and lastPos startMatch headerEnd :: nat
  assume "indexOf template ''{{#each'' lastPos = Some startMatch"
    and "indexOf template ''}}'' startMatch = Some headerEnd"
  then show "((rend, variables, template, headerEnd + 2,
        result @ slice template lastPos startMatch @ slice template startMatch (headerEnd + 2)),
       (rend, variables, template, lastPos, result))
      \<in> measure (\<lambda>(rend, variables, template, lastPos, result). length template - lastPos)"
    using indexOf_bounds [of template "''{{#each''" lastPos startMatch]
      indexOf_bounds [of template "''}}''" startMatch headerEnd] by auto
next
  fix rend :: "string \<Rightarrow> env \<Rightarrow> string option" and variables :: env
    and template result out :: string and lastPos startMatch headerEnd endPos :: nat
  assume "indexOf template ''{{#each'' lastPos = Some startMatch"
    and "indexOf template ''}}'' startMatch = Some headerEnd"
    and "findMatchingEnd template (headerEnd + 2) = Some endPos"
  then show "((rend, variables, template, endPos,
        result @ slice template lastPos startMatch @ out),
       (rend, variables, template, lastPos, result))
      \<in> measure (\<lambda>(rend, variables, template, lastPos, result). length template - lastPos)"
    using indexOf_bounds [of template "''{{#each''" lastPos startMatch]
      indexOf_bounds [of template "''}}''" startMatch headerEnd]
      findMatchingEnd_from_bounds [of template 1 "headerEnd + 2" endPos]
    by (auto simp: findMatchingEnd_def)
qed

declare processLoops_from.simps [simp del]

definition processLoops ::
  "(string \<Rightarrow> env \<Rightarrow> string option) \<Rightarrow> string \<Rightarrow> env \<Rightarrow> string option" where
  "processLoops rend template variables = processLoops_from rend variables template 0 []"

subsection \<open>render\<close>

text \<open>
  One pass of the loop body of \<open>render\<close>: loops, then conditionals, then variables.
\<close>

definition render_pass :: "(string \<Rightarrow> env \<Rightarrow> string option) \<Rightarrow> env \<Rightarrow> string \<Rightarrow> string option" where
  "render_pass rend variables result =
     map_option (\<lambda>r. processVariables (processConditionals r variables) variables)
       (processLoops rend result variables)"

text \<open>
  The loop \<open>while (result !== previousResult)\<close>. The source has no bound on the number of
  passes, so the model counts them: \<open>None\<close> when \<open>k\<close> passes were not enough.
\<close>

primrec render_while :: "(string \<Rightarrow> string option) \<Rightarrow> nat \<Rightarrow> string \<Rightarrow> string \<Rightarrow> string option" where
  "render_while pass 0 result previousResult =
     (if result \<noteq> previousResult then None else Some result)"
| "render_while pass (Suc k) result previousResult =
     (if result \<noteq> previousResult
      then (case pass result of
              None \<Rightarrow> None
            | Some r \<Rightarrow> render_while pass k r result)
      else Some result)"

text \<open>
  \<open>render\<close> with fuel: \<open>render_fixpoint (Suc n)\<close> allows \<open>n\<close> passes and renders loop bodies
  with \<open>render n\<close>. \<open>None\<close> means that the fuel did not suffice. \<open>render_fixpoint\<close> is
  the text when the loop ends, \<open>render\<close> the text after the final clean-up.
\<close>

primrec render_fixpoint :: "nat \<Rightarrow> string \<Rightarrow> env \<Rightarrow> string option" where
  "render_fixpoint 0 = (\<lambda>template variables. None)"
| "render_fixpoint (Suc n) = (\<lambda>template variables.
     render_while
       (render_pass (\<lambda>t vs. map_option cleanup (render_fixpoint n t vs)) variables)
       n template [])"

definition render :: "nat \<Rightarrow> string \<Rightarrow> env \<Rightarrow> string option" where
  "render n template variables = map_option cleanup (render_fixpoint n template variables)"

subsection \<open>extractVariables\<close>

datatype var_type = TString | TNumber | TBoolean | TDate | TArray | TObject

record variable_validation =
  vpattern :: "string option"
  vmin :: "int option"
  vmax :: "int option"
  venum :: "jsval list option"
  vcustom :: "string option"

record template_variable =
  vname :: string
  vdescription :: string
  vtype :: var_type
  required :: bool
  vdefault :: "jsval option"
  validation :: "variable_validation option"

text \<open>A \<open>Set\<close> of strings in insertion order: \<open>add\<close> keeps the first occurrence.\<close>

definition set_add :: "string list \<Rightarrow> string \<Rightarrow> string list" where
  "set_add acc x = (if x \<in> set acc then acc else acc @ [x])"

definition new_variable :: "string \<Rightarrow> template_variable" where
  "new_variable varName =
     \<lparr> vname = varName,
       vdescription = ''Variable '' @ varName @ '' used in template'',
       vtype = TString,
       required = True,
       vdefault = None,
       validation = None \<rparr>"

text \<open>The \<open>Map\<close> from name to definition, in insertion order, filled from the names.\<close>

definition map_set_new :: "(string \<times> template_variable) list \<Rightarrow> string \<Rightarrow> (string \<times> template_variable) list" where
  "map_set_new variables varName =
     (if varName \<in> fst ` set variables then variables
      else variables @ [(varName, new_variable varName)])"

definition extract_matches :: "string \<Rightarrow> string list" where
  "extract_matches template =
     foldl set_add []
       (map trim (regex_matches match_var template)
        @ map (\<lambda>(condition, content). trim condition) (regex_matches match_if template)
        @ map (\<lambda>(arrayVar, itemName, content). trim arrayVar) (regex_matches match_each template))"

definition extractVariables :: "string \<Rightarrow> template_variable list" where
  "extractVariables template = map snd (foldl map_set_new [] (extract_matches template))"

section \<open>TemplateInheritance\<close>

datatype category = Phase | Document | Deliverable | Checklist

text \<open>\<open>ISDLCTemplate\<close>. The optional fields are options; \<open>tid\<close> and \<open>tname\<close> are the
  fields \<open>id\<close> and \<open>name\<close>.\<close>

record template =
  tid :: string
  tname :: string
  category :: category
  phase :: "string option"
  version :: string
  description :: string
  variables :: "template_variable list"
  content :: string
  parent :: "string option"
  tags :: "string list option"

datatype error =
    GetterNotSet
  | TemplateNotFound string
  | ChainTemplateNotFound string
  | CircularInheritance string string
  | ResolveFailed

type_synonym template_getter = "string \<Rightarrow> template option"

text \<open>Truthiness of an optional string: present and not empty.\<close>

fun truthy_str :: "string option \<Rightarrow> bool" where
  "truthy_str None = False"
| "truthy_str (Some s) = (s \<noteq> [])"

subsection \<open>mergeVariables, mergeTags, mergeContent\<close>

fun findIndex :: "('a \<Rightarrow> bool) \<Rightarrow> 'a list \<Rightarrow> nat option" where
  "findIndex P [] = None"
| "findIndex P (x # xs) = (if P x then Some 0 else map_option Suc (findIndex P xs))"

fun mergeVariables_loop :: "template_variable list \<Rightarrow> template_variable list \<Rightarrow> template_variable list" where
  "mergeVariables_loop merged [] = merged"
| "mergeVariables_loop merged (childVar # childVars) =
     (case findIndex (\<lambda>v. vname v = vname childVar) merged of
        Some existingIndex \<Rightarrow> mergeVariables_loop (merged[existingIndex := childVar]) childVars
      | None \<Rightarrow> mergeVariables_loop (merged @ [childVar]) childVars)"

definition mergeVariables :: "template_variable list \<Rightarrow> template_variable list \<Rightarrow> template_variable list" where
  "mergeVariables parentVars childVars = mergeVariables_loop parentVars childVars"

definition mergeTags :: "string list \<Rightarrow> string list \<Rightarrow> string list" where
  "mergeTags parentTags childTags = foldl set_add [] (parentTags @ childTags)"

text \<open>The splice marker: \<open>{{>\<close>, optional spaces, \<open>parent\<close>, optional spaces, \<open>}}\<close>.
  The result is the length of the match.\<close>

definition match_splice :: "string \<Rightarrow> nat option" where
  "match_splice s =
     (case strip_prefix ''{{>'' s of
        None \<Rightarrow> None
      | Some s1 \<Rightarrow>
          (let ws1 = takeWhile is_space s1; s2 = dropWhile is_space s1
           in (case strip_prefix ''parent'' s2 of
                 None \<Rightarrow> None
               | Some s3 \<Rightarrow>
                   (let ws2 = takeWhile is_space s3; s4 = dropWhile is_space s3
                    in if starts_with ''}}'' s4
                       then Some (length ws1 + length ws2 + 11)
                       else None))))"

text \<open>
  \<open>replace\<close> with a replacement that is a string expands the dollar patterns of the
  replacement at every match: \<open>$$\<close> is a dollar sign, \<open>$&\<close> the matched text,
  \<open>$`\<close> the text before the match and \<open>$'\<close> the text after it. The pattern has no
  groups, so a dollar sign before anything else stays as it is.
\<close>

fun expand_replacement :: "string \<Rightarrow> string \<Rightarrow> string \<Rightarrow> string \<Rightarrow> string" where
  "expand_replacement [] matched leading trailing = []"
| "expand_replacement [c] matched leading trailing = [c]"
| "expand_replacement (c # d # r) matched leading trailing =
     (if c = CHR ''$'' \<and> d = CHR ''$'' then CHR ''$'' # expand_replacement r matched leading trailing
      else if c = CHR ''$'' \<and> d = CHR ''&'' then matched @ expand_replacement r matched leading trailing
      else if c = CHR ''$'' \<and> d = CHR 0x60 then leading @ expand_replacement r matched leading trailing
      else if c = CHR ''$'' \<and> d = CHR 0x27 then trailing @ expand_replacement r matched leading trailing
      else c # expand_replacement (d # r) matched leading trailing)"

fun splice_scan :: "string \<Rightarrow> string \<Rightarrow> string \<Rightarrow> string" where
  "splice_scan replacement leading [] = []"
| "splice_scan replacement leading (c # cs) =
     (case match_splice (c # cs) of
        None \<Rightarrow> c # splice_scan replacement (leading @ [c]) cs
      | Some n \<Rightarrow>
          expand_replacement replacement (take n (c # cs)) leading (drop n (c # cs))
            @ splice_scan replacement (leading @ take n (c # cs)) (drop (n - 1) cs))"

definition mergeContent :: "string \<Rightarrow> string \<Rightarrow> string" where
  "mergeContent parentContent childContent = splice_scan parentContent [] childContent"

subsection \<open>mergeTemplates\<close>

definition opt_list :: "'a list option \<Rightarrow> 'a list" where
  "opt_list xs = (case xs of None \<Rightarrow> [] | Some l \<Rightarrow> l)"

definition mergeTemplates :: "template \<Rightarrow> template \<Rightarrow> template" where
  "mergeTemplates p c =
     (let merged =
        \<lparr> tid = tid c,
          tname = tname c,
          category = category c,
          phase = (case phase c of Some x \<Rightarrow> Some x | None \<Rightarrow> phase p),
          version = version c,
          description = description c,
          variables = mergeVariables (variables p) (variables c),
          content = mergeContent (content p) (content c),
          parent = parent c,
          tags = Some (mergeTags (opt_list (tags p)) (opt_list (tags c))) \<rparr>
      in if truthy_str (phase p) \<or> truthy_str (phase c)
         then merged\<lparr> phase := (if truthy_str (phase c) then phase c else phase p) \<rparr>
         else merged)"

subsection \<open>getInheritanceChain\<close>

text \<open>The test \<open>!template.parent\<close> negated: the parent is present and not empty.\<close>

definition has_parent :: "template \<Rightarrow> bool" where
  "has_parent t = truthy_str (parent t)"

text \<open>
  The loop \<open>while (true)\<close> of \<open>getInheritanceChain\<close> over \<open>chain\<close>, \<open>visited\<close> and
  \<open>currentId\<close>. The getter is any function, so the loop need not end: the result is
  \<open>None\<close> when it does not.
\<close>

partial_function (option) chain_loop ::
  "template_getter \<Rightarrow> string \<Rightarrow> string list \<Rightarrow> string set \<Rightarrow> string \<Rightarrow> (error + string list) option" where
  "chain_loop getter templateId chain visited currentId =
     (case getter currentId of
        None \<Rightarrow> Some (Inr chain)
      | Some t \<Rightarrow>
          (if \<not> has_parent t then Some (Inr chain)
           else if the (parent t) \<in> visited
           then Some (Inl (CircularInheritance templateId (the (parent t))))
           else chain_loop getter templateId (chain @ [the (parent t)])
                  (insert (the (parent t)) visited) (the (parent t))))"

declare chain_loop.simps [code]

definition getInheritanceChain :: "template_getter \<Rightarrow> string \<Rightarrow> (error + string list) option" where
  "getInheritanceChain getter templateId =
     chain_loop getter templateId [templateId] {templateId} templateId"

subsection \<open>resolveTemplate\<close>

record resolver =
  resolvedCache :: "(string \<times> template) list"
  templateGetter :: "template_getter option"

text \<open>The loop over the reversed chain, from the root to the leaf.\<close>

fun merge_chain :: "template_getter \<Rightarrow> string list \<Rightarrow> template option \<Rightarrow> error + template option" where
  "merge_chain getter [] resolved = Inr resolved"
| "merge_chain getter (i # ids) resolved =
     (case getter i of
        None \<Rightarrow> Inl (ChainTemplateNotFound i)
      | Some current \<Rightarrow>
          merge_chain getter ids
            (Some (case resolved of None \<Rightarrow> current | Some r \<Rightarrow> mergeTemplates r current)))"

definition resolveTemplate :: "resolver \<Rightarrow> string \<Rightarrow> ((error + template) \<times> resolver) option" where
  "resolveTemplate st templateId =
     (case map_of (resolvedCache st) templateId of
        Some cached \<Rightarrow> Some (Inr cached, st)
      | None \<Rightarrow>
          (case templateGetter st of
             None \<Rightarrow> Some (Inl GetterNotSet, st)
           | Some getter \<Rightarrow>
               (case getter templateId of
                  None \<Rightarrow> Some (Inl (TemplateNotFound templateId), st)
                | Some t \<Rightarrow>
                    (if \<not> has_parent t
                     then Some (Inr t,
                            st\<lparr> resolvedCache := AList.update templateId t (resolvedCache st) \<rparr>)
                     else (case getInheritanceChain getter templateId of
                             None \<Rightarrow> None
                           | Some (Inl e) \<Rightarrow> Some (Inl e, st)
                           | Some (Inr chain) \<Rightarrow>
                               (case merge_chain getter (rev chain) None of
                                  Inl e \<Rightarrow> Some (Inl e, st)
                                | Inr None \<Rightarrow> Some (Inl ResolveFailed, st)
                                | Inr (Some resolved) \<Rightarrow>
                                    Some (Inr resolved,
                                      st\<lparr> resolvedCache :=
                                        AList.update templateId resolved (resolvedCache st) \<rparr>)))))))"

section \<open>Reference definitions\<close>

text \<open>
  The merge of two variable lists in the words of the specification: every parent entry
  in its place, replaced by the child entry of the same name when there is one, then the
  child entries whose name no parent entry has, in the order of the child.
\<close>

definition mergeVariables_spec :: "template_variable list \<Rightarrow> template_variable list \<Rightarrow> template_variable list" where
  "mergeVariables_spec parentVars childVars =
     map (\<lambda>p. case find (\<lambda>c. vname c = vname p) childVars of Some c \<Rightarrow> c | None \<Rightarrow> p) parentVars
     @ filter (\<lambda>c. vname c \<notin> vname ` set parentVars) childVars"

text \<open>
  Following parent links in a store: the parent of an id, the id reached after a number
  of steps, the sequence of ids from the leaf up to a step, and the property that an id
  comes back after some steps.
\<close>

definition parent_id :: "template_getter \<Rightarrow> string \<Rightarrow> string option" where
  "parent_id g a = (case g a of None \<Rightarrow> None | Some t \<Rightarrow> if has_parent t then parent t else None)"

fun ancestor :: "template_getter \<Rightarrow> string \<Rightarrow> nat \<Rightarrow> string option" where
  "ancestor g a 0 = Some a"
| "ancestor g a (Suc n) = (case ancestor g a n of None \<Rightarrow> None | Some b \<Rightarrow> parent_id g b)"

definition ancestors_upto :: "template_getter \<Rightarrow> string \<Rightarrow> nat \<Rightarrow> string list" where
  "ancestors_upto g a k = map (\<lambda>i. the (ancestor g a i)) [0..<Suc k]"

definition revisits :: "template_getter \<Rightarrow> string \<Rightarrow> bool" where
  "revisits g a \<longleftrightarrow> (\<exists>i j. i < j \<and> ancestor g a j \<noteq> None \<and> ancestor g a i = ancestor g a j)"


text \<open>
  Occurrences in a template text, for the manifest of \<open>extractVariables\<close>: a text
  occurs in another; runs of white space, dotted paths and item names; the three markers
  as texts; and a path used as a plain reference, as the condition of a conditional that
  is closed somewhere behind its header, or as the source of a loop that is closed
  somewhere behind its header.
\<close>

definition occurs :: "string \<Rightarrow> string \<Rightarrow> bool" where
  "occurs x s \<longleftrightarrow> (\<exists>u v. s = u @ x @ v)"

definition spaces :: "string \<Rightarrow> bool" where
  "spaces ws \<longleftrightarrow> list_all is_space ws"

definition is_path :: "string \<Rightarrow> bool" where
  "is_path p \<longleftrightarrow> p \<noteq> [] \<and> list_all is_path_char p"

definition is_name :: "string \<Rightarrow> bool" where
  "is_name n \<longleftrightarrow> n \<noteq> [] \<and> list_all is_word n"

definition padding :: "string \<Rightarrow> bool" where
  "padding ws \<longleftrightarrow> ws \<noteq> [] \<and> spaces ws"

definition reference :: "string \<Rightarrow> string \<Rightarrow> string \<Rightarrow> string" where
  "reference ws1 p ws2 = ''{{'' @ ws1 @ p @ ws2 @ ''}}''"

definition if_open :: "string \<Rightarrow> string \<Rightarrow> string" where
  "if_open ws c = ''{{#if'' @ ws @ c @ ''}}''"

definition each_open :: "string \<Rightarrow> string \<Rightarrow> string \<Rightarrow> string \<Rightarrow> string \<Rightarrow> string" where
  "each_open ws1 p ws2 ws3 item = ''{{#each'' @ ws1 @ p @ ws2 @ ''as'' @ ws3 @ item @ ''}}''"

definition occurs_reference :: "string \<Rightarrow> string \<Rightarrow> bool" where
  "occurs_reference t p \<longleftrightarrow>
     (\<exists>ws1 ws2. spaces ws1 \<and> spaces ws2 \<and> is_path p \<and> occurs (reference ws1 p ws2) t)"

definition occurs_condition :: "string \<Rightarrow> string \<Rightarrow> bool" where
  "occurs_condition t c \<longleftrightarrow>
     (\<exists>ws body. padding ws \<and> is_path c \<and> occurs (if_open ws c @ body @ ''{{/if}}'') t)"

definition occurs_source :: "string \<Rightarrow> string \<Rightarrow> bool" where
  "occurs_source t p \<longleftrightarrow>
     (\<exists>ws1 ws2 ws3 item body. padding ws1 \<and> padding ws2 \<and> padding ws3 \<and> is_path p \<and> is_name item
        \<and> occurs (each_open ws1 p ws2 ws3 item @ body @ ''{{/each}}'') t)"

text \<open>
  A text whose conditionals are not nested: it is made of stretches without the opening
  marker of a conditional and of complete conditionals, each of them closed by the first
  closing marker behind its header. The same for loops.
\<close>

inductive flat_conditionals :: "string \<Rightarrow> bool" where
  "\<not> occurs ''{{#if'' a \<Longrightarrow> flat_conditionals a"
| "\<not> occurs ''{{#if'' a \<Longrightarrow> padding ws \<Longrightarrow> is_path c
   \<Longrightarrow> \<not> occurs ''{{/if}}'' (body @ ''{{/if}'') \<Longrightarrow> flat_conditionals b
   \<Longrightarrow> flat_conditionals (a @ if_open ws c @ body @ ''{{/if}}'' @ b)"

inductive flat_loops :: "string \<Rightarrow> bool" where
  "\<not> occurs ''{{#each'' a \<Longrightarrow> flat_loops a"
| "\<not> occurs ''{{#each'' a \<Longrightarrow> padding ws1 \<Longrightarrow> padding ws2 \<Longrightarrow> padding ws3
   \<Longrightarrow> is_path p \<Longrightarrow> is_name item
   \<Longrightarrow> \<not> occurs ''{{/each}}'' (body @ ''{{/each}'') \<Longrightarrow> flat_loops b
   \<Longrightarrow> flat_loops (a @ each_open ws1 p ws2 ws3 item @ body @ ''{{/each}}'' @ b)"

subsection \<open>Example data\<close>

definition tv :: "string \<Rightarrow> var_type \<Rightarrow> template_variable" where
  "tv n t = \<lparr> vname = n, vdescription = [], vtype = t, required = True, vdefault = None, validation = None \<rparr>"

definition mk :: "string \<Rightarrow> string option \<Rightarrow> string \<Rightarrow> template" where
  "mk i p c = \<lparr> tid = i, tname = i, category = Document, phase = None, version = ''1.0.0'',
     description = [], variables = [], content = c, parent = p, tags = None \<rparr>"

definition store3 :: template_getter where
  "store3 = map_of [(''leaf'', mk ''leaf'' (Some ''mid'') ''L{{> parent}}''),
                    (''mid'', mk ''mid'' (Some ''root'') ''M{{> parent}}''),
                    (''root'', mk ''root'' None ''R'')]"

definition store2 :: template_getter where
  "store2 = map_of [(''id1'', mk ''id1'' (Some ''id2'') ''A''),
                    (''id2'', mk ''id2'' (Some ''id1'') ''B'')]"

section \<open>Properties of the renderer\<close>

subsection \<open>Truthiness\<close>

text \<open>
  C4. Conditional truthiness follows the table: \<open>undefined\<close> and \<open>null\<close> are false, a
  boolean is itself, a number is truthy when it is not zero, a string and a list when
  they are not empty, and a mapping always, the empty mapping included.
\<close>

theorem isTruthy_table:
  "isTruthy Undefined = False \<and> isTruthy Null = False \<and> isTruthy (JBool b) = b
   \<and> isTruthy (JNum n) = (n \<noteq> 0) \<and> isTruthy (JStr s) = (s \<noteq> [])
   \<and> isTruthy (JList xs) = (xs \<noteq> []) \<and> isTruthy (JObj m) = True \<and> isTruthy (JObj []) = True"
  by simp

subsection \<open>Nested conditionals\<close>

text \<open>
  C2. Block matching should be depth-aware for conditionals as it is for loops. The
  conditional pattern takes the shortest body, so an opening marker is paired with the
  first closing marker that follows it: in a conditional nested in a conditional the
  outer opening is paired with the inner closing. With a false outer condition the
  text after the inner closing marker and the outer closing marker stay in the output.
\<close>

theorem nested_conditional_first_close:
  "match_if ''{{#if a}}{{#if b}}X{{/if}}Y{{/if}}'' = Some ((''a'', ''{{#if b}}X''), 26)
   \<and> processConditionals ''{{#if a}}{{#if b}}X{{/if}}Y{{/if}}''
        [(''a'', JBool False), (''b'', JBool True)] = ''Y{{/if}}''
   \<and> render 3 ''{{#if a}}{{#if b}}X{{/if}}Y{{/if}}''
        [(''a'', JBool False), (''b'', JBool True)] = Some ''Y{{/if}}''"
  by code_simp

text \<open>The loop path counts depth: the outer opening is paired with the last closing.\<close>

lemma nested_loop_last_close:
  "findMatchingEnd ''{{#each a as x}}{{#each b as y}}X{{/each}}Y{{/each}}'' 16 = Some 52"
  by code_simp

subsection \<open>Fuel\<close>

text \<open>More fuel does not change a result: the passes and the rendering of loop bodies
  are monotone in the renderer they call.\<close>

lemma render_items_mono:
  assumes le: "\<And>t e r. rend1 t e = Some r \<Longrightarrow> rend2 t e = Some r"
  shows "render_items rend1 vs nm c items = Some r \<Longrightarrow> render_items rend2 vs nm c items = Some r"
proof (induction items arbitrary: r)
  case Nil
  then show ?case by simp
next
  case (Cons item items)
  from Cons.prems obtain h tl where h: "rend1 c (AList.update nm item vs) = Some h"
    and tl: "render_items rend1 vs nm c items = Some tl" and r: "r = h @ tl"
    by (auto split: option.splits)
  from le [OF h] Cons.IH [OF tl] r show ?case by simp
qed

lemma processLoops_from_mono:
  assumes "\<And>t e r. rend1 t e = Some r \<Longrightarrow> rend2 t e = Some r"
    and "processLoops_from rend1 vs tpl pos res = Some r"
  shows "processLoops_from rend2 vs tpl pos res = Some r"
  using assms
proof (induction rend1 vs tpl pos res rule: processLoops_from.induct)
  case (1 rend vs tpl pos res)
  note le = "1.prems"(1) and run = "1.prems"(2)
  show ?case
  proof (cases "indexOf tpl ''{{#each'' pos")
    case None
    with run show ?thesis
      by (subst processLoops_from.simps, subst (asm) processLoops_from.simps) simp
  next
    case sm: (Some startMatch)
    show ?thesis
    proof (cases "indexOf tpl ''}}'' startMatch")
      case None
      with run sm show ?thesis
        by (subst processLoops_from.simps, subst (asm) processLoops_from.simps) simp
    next
      case he: (Some headerEnd)
      show ?thesis
      proof (cases "search_header (slice tpl (startMatch + 7) headerEnd)")
        case None
        with run sm he have "processLoops_from rend vs tpl (headerEnd + 2)
            (res @ slice tpl pos startMatch @ slice tpl startMatch (headerEnd + 2)) = Some r"
          by (subst (asm) processLoops_from.simps) simp
        from "1.IH"(1) [OF sm he None le this] sm he None show ?thesis
          by (subst processLoops_from.simps) simp
      next
        case hd: (Some hdr)
        obtain arrayVar itemName where hdr: "hdr = (arrayVar, itemName)" by (cases hdr)
        show ?thesis
        proof (cases "findMatchingEnd tpl (headerEnd + 2)")
          case None
          with run sm he hd hdr show ?thesis
            by (subst processLoops_from.simps, subst (asm) processLoops_from.simps) simp
        next
          case ep: (Some endPos)
          show ?thesis
          proof (cases "render_items rend vs itemName (slice tpl (headerEnd + 2) (endPos - 9))
              (loop_items (getNestedValue vs (trim arrayVar)))")
            case None
            with run sm he hd hdr ep show ?thesis
              by (subst (asm) processLoops_from.simps) simp
          next
            case out: (Some out)
            with run sm he hd hdr ep have "processLoops_from rend vs tpl endPos
                (res @ slice tpl pos startMatch @ out) = Some r"
              by (subst (asm) processLoops_from.simps) simp
            from "1.IH"(2) [OF sm he hd hdr [symmetric] ep out le this]
              render_items_mono [of rend rend2, OF le out] sm he hd hdr ep
            show ?thesis
              by (subst processLoops_from.simps) simp
          qed
        qed
      qed
    qed
  qed
qed

lemma render_while_mono:
  assumes le: "\<And>s r. pass1 s = Some r \<Longrightarrow> pass2 s = Some r"
  shows "render_while pass1 k s p = Some r \<Longrightarrow> render_while pass2 (k + j) s p = Some r"
proof (induction k arbitrary: s p)
  case 0
  then show ?case by (cases j) (auto split: if_splits)
next
  case (Suc k)
  show ?case
  proof (cases "s = p")
    case True
    with Suc.prems show ?thesis by simp
  next
    case False
    with Suc.prems obtain s' where s': "pass1 s = Some s'"
      and rest: "render_while pass1 k s' s = Some r"
      by (auto split: option.splits)
    from le [OF s'] Suc.IH [OF rest] False show ?thesis by simp
  qed
qed

lemma render_fixpoint_mono:
  "render_fixpoint n t e = Some r \<Longrightarrow> render_fixpoint (n + k) t e = Some r"
proof (induction n arbitrary: t e r)
  case 0
  then show ?case by simp
next
  case (Suc n)
  let ?R = "\<lambda>m t vs. map_option cleanup (render_fixpoint m t vs)"
  have le: "?R n t e = Some r \<Longrightarrow> ?R (n + k) t e = Some r" for t e r
    using Suc.IH by auto
  have pass: "render_pass (?R n) e s = Some r \<Longrightarrow> render_pass (?R (n + k)) e s = Some r" for s r
    unfolding render_pass_def processLoops_def
    using processLoops_from_mono [of "?R n" "?R (n + k)", OF le] by auto
  from Suc.prems have "render_while (render_pass (?R n) e) n t [] = Some r" by simp
  from render_while_mono [of "render_pass (?R n) e" "render_pass (?R (n + k)) e", OF pass this]
  show ?case by simp
qed

lemma render_mono: "render n t e = Some r \<Longrightarrow> render (n + k) t e = Some r"
  using render_fixpoint_mono [of n t e _ k] by (auto simp: render_def)

lemma render_while_fixed:
  "render_while pass k s p = Some r \<Longrightarrow> (r = s \<and> s = p) \<or> pass r = Some r"
proof (induction k arbitrary: s p)
  case 0
  then show ?case by (auto split: if_splits)
next
  case (Suc k)
  show ?case
  proof (cases "s = p")
    case True
    with Suc.prems show ?thesis by simp
  next
    case False
    with Suc.prems obtain s' where s': "pass s = Some s'"
      and rest: "render_while pass k s' s = Some r"
      by (auto split: option.splits)
    from Suc.IH [OF rest] s' show ?thesis by auto
  qed
qed

lemma render_while_same: "render_while pass k s s = Some s"
  by (cases k) simp_all

lemma render_while_again:
  assumes "render_while pass m t [] = Some r"
  shows "render_while pass m r [] = Some r"
proof (cases "r = []")
  case True
  then show ?thesis by (simp add: render_while_same)
next
  case False
  with render_while_fixed [OF assms] have stable: "pass r = Some r" by auto
  from assms False obtain m' where "m = Suc m'" by (cases m) (auto split: if_splits)
  with stable False show ?thesis by (simp add: render_while_same)
qed

subsection \<open>Termination of render\<close>























text \<open>The scenarios of the specification and a heading template end after one changing
  pass.\<close>

lemma render_scenarios:
  "render 3 ''Hello {{name}}'' [(''name'', JStr ''Ann'')] = Some ''Hello Ann''"
  "render 3 ''{{#if flag}}Y{{/if}}{{#if other}}N{{/if}}''
     [(''flag'', JBool True), (''other'', JBool False)] = Some ''Y''"
  "render 4 ''{{#each xs as x}}-{{x}}{{/each}}'' [(''xs'', JList [JStr ''a'', JStr ''b''])]
     = Some ''-a-b''"
  "render 3 ''# {{title}}'' [(''title'', JStr ''Plan'')] = Some ''# Plan''"
  by code_simp+

subsection \<open>Idempotence of render\<close>

text \<open>
  C8, as first stated: rendering the output of \<open>render\<close> again gives the same output,
  for every template and environment. It fails when the text at the end of the loop
  still holds a variable marker (it resolves to itself): the final clean-up removes the
  marker, and what is left around it can form a new marker, which the second render
  resolves.
\<close>

theorem render_not_idempotent_counterexample:
  "\<forall>k. render (3 + k) ''{{{x}}{y}}'' [(''x'', JStr ''{{x}}'')] = Some ''{{y}}''
     \<and> render (3 + k) ''{{y}}'' [(''x'', JStr ''{{x}}'')] = Some []"
proof -
  have a: "render 3 ''{{{x}}{y}}'' [(''x'', JStr ''{{x}}'')] = Some ''{{y}}''" by code_simp
  have b: "render 3 ''{{y}}'' [(''x'', JStr ''{{x}}'')] = Some []" by code_simp
  from render_mono [OF a] render_mono [OF b] show ?thesis by blast
qed

text \<open>
  C8, amended. When the loop of \<open>render\<close> ends with a text from which the final clean-up
  removes nothing, that text is the result, and rendering it again with the same
  environment, with the same or more fuel, returns it unchanged.
\<close>

theorem render_idempotent_at_clean_fixpoint:
  assumes "render_fixpoint n t e = Some r" and "cleanup r = r"
  shows "render n t e = Some r \<and> render (n + k) r e = Some r"
proof -
  from assms(1) obtain m where n: "n = Suc m" by (cases n) auto
  from assms(1) have "render_fixpoint n r e = Some r"
    unfolding n render_fixpoint.simps by (rule render_while_again)
  then have "render n r e = Some r" using assms(2) by (simp add: render_def)
  from render_mono [OF this] assms show ?thesis by (simp add: render_def)
qed

theorem render_idempotent_at_clean_fixpoint_witness:
  "render_fixpoint 4 ''{{#each xs as x}}-{{x}}{{/each}}'' [(''xs'', JList [JStr ''a'', JStr ''b''])] = Some ''-a-b''
   \<and> cleanup ''-a-b'' = ''-a-b''
   \<and> render 4 ''{{#each xs as x}}-{{x}}{{/each}}'' [(''xs'', JList [JStr ''a'', JStr ''b''])] = Some ''-a-b''
   \<and> render 4 ''-a-b'' [(''xs'', JList [JStr ''a'', JStr ''b''])] = Some ''-a-b''"
proof -
  have f: "render_fixpoint 4 ''{{#each xs as x}}-{{x}}{{/each}}'' [(''xs'', JList [JStr ''a'', JStr ''b''])] = Some ''-a-b''"
    by code_simp
  have c: "cleanup ''-a-b'' = ''-a-b''" by code_simp
  from render_idempotent_at_clean_fixpoint [OF f c, of 0] f c show ?thesis by simp
qed

subsection \<open>Variable resolution\<close>












text \<open>
  A name that every object inherits is a property of the environment as well: the walk
  returns the inherited member, a built-in function, and the marker is replaced by its
  source text.
\<close>

lemma getNestedValue_inherited_member:
  "getNestedValue [] ''toString'' = JFun ''toString''"
  "render 3 ''{{toString}}'' [] = Some ''function toString() { [native code] }''"
  "getNestedValue [(''xs'', JList [])] ''xs.push'' = JFun ''push''"
  by code_simp+

text \<open>The scenario of the specification with a missing variable.\<close>

lemma render_missing_variable_scenario:
  "render 3 ''Hi {{name}}, id {{id}}'' [(''name'', JStr ''Jo'')] = Some ''Hi Jo, id ''"
  by code_simp
subsection \<open>extractVariables\<close>

lemma set_add_fold_set: "set (foldl set_add acc xs) = set acc \<union> set xs"
  by (induction xs arbitrary: acc) (auto simp: set_add_def)

lemma set_add_fold_distinct: "distinct acc \<Longrightarrow> distinct (foldl set_add acc xs)"
  by (induction xs arbitrary: acc) (auto simp: set_add_def)

lemma map_set_new_fold:
  "distinct ns \<Longrightarrow> set ns \<inter> fst ` set vs = {} \<Longrightarrow>
   foldl map_set_new vs ns = vs @ map (\<lambda>n. (n, new_variable n)) ns"
proof (induction ns arbitrary: vs)
  case Nil
  then show ?case by simp
next
  case (Cons n ns)
  from Cons.prems have fresh: "n \<notin> fst ` set vs" by auto
  then have step: "map_set_new vs n = vs @ [(n, new_variable n)]"
    by (simp add: map_set_new_def)
  from Cons.prems have "set ns \<inter> fst ` set (vs @ [(n, new_variable n)]) = {}" by auto
  with Cons.IH [of "vs @ [(n, new_variable n)]"] Cons.prems step show ?case by simp
qed

lemma extractVariables_eq: "extractVariables t = map new_variable (extract_matches t)"
proof -
  have "distinct (extract_matches t)"
    unfolding extract_matches_def by (rule set_add_fold_distinct) simp
  then show ?thesis
    using map_set_new_fold [of "extract_matches t" "[]"]
    by (simp add: extractVariables_def comp_def)
qed

text \<open>Texts, prefixes and first occurrences.\<close>

lemma starts_with_iff: "starts_with p s \<longleftrightarrow> (\<exists>v. s = p @ v)"
  by (induction p s rule: starts_with.induct) auto

lemma strip_prefix_Some: "strip_prefix p s = Some r \<longleftrightarrow> s = p @ r"
  by (auto simp: strip_prefix_def starts_with_iff)

lemma occurs_Cons: "occurs x s \<Longrightarrow> occurs x (c # s)"
  unfolding occurs_def by (metis append_Cons)

lemma occurs_append_left: "occurs x s \<Longrightarrow> occurs x (u @ s)"
  unfolding occurs_def by (metis append.assoc)

lemma find_sub_Some: "find_sub x s = Some k \<Longrightarrow> \<exists>v. s = take k s @ x @ v"
proof (induction s arbitrary: k)
  case Nil
  then show ?case by (auto split: if_splits)
next
  case (Cons c cs)
  show ?case
  proof (cases "starts_with x (c # cs)")
    case True
    with Cons.prems have "k = 0" by simp
    with True show ?thesis by (simp add: starts_with_iff)
  next
    case False
    with Cons.prems obtain j where j: "find_sub x cs = Some j" and k: "k = Suc j" by auto
    from Cons.IH [OF j] k show ?thesis by auto
  qed
qed

lemma find_sub_occurs: "find_sub x s \<noteq> None \<longleftrightarrow> occurs x s"
proof
  assume "find_sub x s \<noteq> None"
  then obtain k where "find_sub x s = Some k" by auto
  from find_sub_Some [OF this] show "occurs x s" unfolding occurs_def by blast
next
  assume "occurs x s"
  then obtain u v where s: "s = u @ x @ v" unfolding occurs_def by blast
  have "find_sub x (u @ x @ v) \<noteq> None"
  proof (induction u)
    case Nil
    have "starts_with x (x @ v)" by (simp add: starts_with_iff)
    then show ?case by (cases "x @ v") (auto split: if_splits)
  next
    case (Cons c u)
    then show ?case by auto
  qed
  with s show "find_sub x s \<noteq> None" by simp
qed

lemma occurs_eval: "occurs x s \<longleftrightarrow> find_sub x s \<noteq> None"
  using find_sub_occurs by blast

lemma find_sub_first:
  assumes "\<not> occurs x (b @ butlast x)" and "x \<noteq> []"
  shows "find_sub x (b @ x @ rest) = Some (length b)"
  using assms(1)
proof (induction b)
  case Nil
  have "starts_with x (x @ rest)" by (simp add: starts_with_iff)
  with assms(2) show ?case by (cases x) auto
next
  case (Cons c b)
  have no: "\<not> starts_with x (c # b @ x @ rest)"
  proof
    assume "starts_with x (c # b @ x @ rest)"
    then obtain v where v: "c # b @ x @ rest = x @ v" by (auto simp: starts_with_iff)
    have len: "length x \<le> length (c # b @ butlast x)" by simp
    have "x @ rest = butlast x @ [last x] @ rest"
      using assms(2) by (metis append.assoc append_butlast_last_id)
    then have "c # b @ x @ rest = (c # b @ butlast x) @ [last x] @ rest" by simp
    then have "take (length x) (c # b @ x @ rest) = take (length x) (c # b @ butlast x)"
      using len by (simp only: take_append) simp
    then have "take (length x) (c # b @ butlast x) = x" using v by simp
    then have "c # b @ butlast x = x @ drop (length x) (c # b @ butlast x)"
      by (metis append_take_drop_id)
    then have "occurs x (c # b @ butlast x)"
      unfolding occurs_def by (metis append_Nil)
    with Cons.prems show False by simp
  qed
  from Cons.prems have "\<not> occurs x (b @ butlast x)" using occurs_Cons by auto
  from Cons.IH [OF this] no show ?case by simp
qed

text \<open>The character classes of the patterns are disjoint, and \<open>trim\<close> gives back a
  path from a capture with white space around it.\<close>

lemma path_not_space: "is_path_char c \<Longrightarrow> \<not> is_space c"
  by (auto simp: is_path_char_def is_word_def is_space_def)

lemma word_path: "is_word c \<Longrightarrow> is_path_char c"
  by (simp add: is_path_char_def)

lemma trim_padded:
  assumes "spaces ws1" "spaces ws2" "is_path p"
  shows "trim (ws1 @ p @ ws2) = p"
proof -
  from assms(3) obtain c p' where p: "p = c # p'" and c: "\<not> is_space c"
    by (cases p) (auto simp: is_path_def path_not_space)
  from assms(3) have l: "\<not> is_space (last p)" and ne: "p \<noteq> []"
    by (auto simp: is_path_def list_all_iff path_not_space)
  have 1: "dropWhile is_space (ws1 @ p @ ws2) = p @ ws2"
    using assms(1) p c by (simp add: spaces_def list_all_iff dropWhile_append2)
  have sp2: "\<And>x. x \<in> set (rev ws2) \<Longrightarrow> is_space x"
    using assms(2) by (simp add: spaces_def list_all_iff)
  have "dropWhile is_space (rev ws2 @ rev p) = dropWhile is_space (rev p)"
    by (rule dropWhile_append2) (rule sp2)
  then have 2: "dropWhile is_space (rev (p @ ws2)) = dropWhile is_space (rev p)" by simp
  have 3: "dropWhile is_space (rev p) = rev p"
    using l ne by (simp add: dropWhile_eq_self_iff hd_rev)
  show ?thesis by (simp only: trim_def 1 2 3 rev_rev_ident)
qed

lemma trim_is_path: "is_path p \<Longrightarrow> trim p = p"
  using trim_padded [of "[]" "[]" p] by (simp add: spaces_def)

lemma takeWhile_all: "list_all P (takeWhile P s)"
  by (induction s) auto

text \<open>What a match of each pattern says about the text it starts at.\<close>

lemma match_var_Some:
  assumes "match_var s = Some (cap, n)"
  shows "\<exists>ws1 p ws2 post. s = reference ws1 p ws2 @ post \<and> spaces ws1 \<and> spaces ws2 \<and> is_path p
           \<and> cap = ws1 @ p @ ws2 \<and> n = length cap + 4"
proof -
  from assms obtain s1 where s: "s = ''{{'' @ s1"
    by (auto simp: match_var_def strip_prefix_Some split: option.splits)
  define ws1 where "ws1 = takeWhile is_space s1"
  define s2 where "s2 = dropWhile is_space s1"
  define nm where "nm = takeWhile is_path_char s2"
  define s3 where "s3 = dropWhile is_path_char s2"
  define ws2 where "ws2 = takeWhile is_space s3"
  define s4 where "s4 = dropWhile is_space s3"
  have sp: "strip_prefix ''{{'' s = Some s1" using s by (simp add: strip_prefix_Some)
  from assms have ok: "nm \<noteq> []" "starts_with ''}}'' s4" and cap: "cap = ws1 @ nm @ ws2"
    and n: "n = length ws1 + length nm + length ws2 + 4"
    unfolding match_var_def sp ws1_def s2_def nm_def s3_def ws2_def s4_def
    by (auto simp: Let_def split: if_splits)
  from ok(2) obtain post where s4: "s4 = ''}}'' @ post" by (auto simp: starts_with_iff)
  have "s1 = ws1 @ s2" by (simp add: ws1_def s2_def)
  moreover have "s2 = nm @ s3" by (simp add: nm_def s3_def)
  moreover have "s3 = ws2 @ s4" by (simp add: ws2_def s4_def)
  ultimately have "s = reference ws1 nm ws2 @ post" using s s4 by (simp add: reference_def)
  moreover have "spaces ws1" "spaces ws2" "is_path nm"
    using ok(1) by (simp_all add: spaces_def is_path_def ws1_def ws2_def nm_def takeWhile_all)
  ultimately show ?thesis using cap n by auto
qed

lemma match_if_Some:
  assumes "match_if s = Some ((c, body), n)"
  shows "\<exists>ws post. s = if_open ws c @ body @ ''{{/if}}'' @ post \<and> padding ws \<and> is_path c"
proof -
  from assms obtain s1 where s: "s = ''{{#if'' @ s1"
    by (auto simp: match_if_def strip_prefix_Some split: option.splits)
  define ws where "ws = takeWhile is_space s1"
  define s2 where "s2 = dropWhile is_space s1"
  define nm where "nm = takeWhile is_path_char s2"
  define s3 where "s3 = dropWhile is_path_char s2"
  have sp: "strip_prefix ''{{#if'' s = Some s1" using s by (simp add: strip_prefix_Some)
  from assms obtain k where ok: "ws \<noteq> []" "nm \<noteq> []" "starts_with ''}}'' s3"
    and k: "find_sub ''{{/if}}'' (drop 2 s3) = Some k"
    and c: "c = nm" and body: "body = take k (drop 2 s3)"
    unfolding match_if_def sp ws_def s2_def nm_def s3_def
    by (auto simp: Let_def split: if_splits option.splits)
  from ok(3) obtain r where s3: "s3 = ''}}'' @ r" by (auto simp: starts_with_iff)
  from find_sub_Some [OF k] s3 body obtain post where r: "r = body @ ''{{/if}}'' @ post" by auto
  have "s1 = ws @ s2" by (simp add: ws_def s2_def)
  moreover have "s2 = nm @ s3" by (simp add: nm_def s3_def)
  ultimately have "s = if_open ws c @ body @ ''{{/if}}'' @ post"
    using s s3 r c by (simp add: if_open_def)
  moreover have "padding ws" "is_path c"
    using ok c by (simp_all add: padding_def spaces_def is_path_def ws_def nm_def takeWhile_all)
  ultimately show ?thesis by auto
qed

lemma match_header_Some:
  assumes "match_header s = Some ((p, item), n)"
  shows "\<exists>ws1 ws2 ws3 r. s = ws1 @ p @ ws2 @ ''as'' @ ws3 @ item @ r
           \<and> padding ws1 \<and> padding ws2 \<and> padding ws3 \<and> is_path p \<and> is_name item
           \<and> n = length (ws1 @ p @ ws2 @ ''as'' @ ws3 @ item)"
proof -
  define ws1 where "ws1 = takeWhile is_space s"
  define s1 where "s1 = dropWhile is_space s"
  define nm where "nm = takeWhile is_path_char s1"
  define s2 where "s2 = dropWhile is_path_char s1"
  define ws2 where "ws2 = takeWhile is_space s2"
  define s3 where "s3 = dropWhile is_space s2"
  define s4 where "s4 = drop 2 s3"
  define ws3 where "ws3 = takeWhile is_space s4"
  define s5 where "s5 = dropWhile is_space s4"
  define it where "it = takeWhile is_word s5"
  from assms have ok: "ws1 \<noteq> []" "nm \<noteq> []" "ws2 \<noteq> []" "starts_with ''as'' s3" "ws3 \<noteq> []" "it \<noteq> []"
    and p: "p = nm" and item: "item = it"
    and n: "n = length ws1 + length nm + length ws2 + 2 + length ws3 + length it"
    unfolding match_header_def ws1_def s1_def nm_def s2_def ws2_def s3_def s4_def ws3_def s5_def it_def
    by (auto simp: Let_def split: if_splits)
  from ok(4) have s3: "s3 = ''as'' @ s4" by (auto simp: starts_with_iff s4_def)
  have "s = ws1 @ s1" by (simp add: ws1_def s1_def)
  moreover have "s1 = nm @ s2" by (simp add: nm_def s2_def)
  moreover have "s2 = ws2 @ s3" by (simp add: ws2_def s3_def)
  moreover have "s4 = ws3 @ s5" by (simp add: ws3_def s5_def)
  moreover have "s5 = it @ dropWhile is_word s5" by (simp add: it_def)
  ultimately have "s = ws1 @ p @ ws2 @ ''as'' @ ws3 @ item @ dropWhile is_word s5"
    using s3 p item by simp
  moreover have "padding ws1" "padding ws2" "padding ws3" "is_path p" "is_name item"
    using ok p item
    by (simp_all add: padding_def spaces_def is_path_def is_name_def
        ws1_def ws2_def ws3_def nm_def it_def takeWhile_all)
  ultimately show ?thesis using n p item by auto
qed

lemma match_each_Some:
  assumes "match_each s = Some ((p, item, body), n)"
  shows "\<exists>ws1 ws2 ws3 post. s = each_open ws1 p ws2 ws3 item @ body @ ''{{/each}}'' @ post
           \<and> padding ws1 \<and> padding ws2 \<and> padding ws3 \<and> is_path p \<and> is_name item"
proof -
  from assms obtain s1 where s: "s = ''{{#each'' @ s1"
    by (auto simp: match_each_def strip_prefix_Some split: option.splits)
  have sp: "strip_prefix ''{{#each'' s = Some s1" using s by (simp add: strip_prefix_Some)
  from assms obtain h k where h: "match_header s1 = Some ((p, item), h)"
    and cl: "starts_with ''}}'' (drop h s1)"
    and k: "find_sub ''{{/each}}'' (drop (h + 2) s1) = Some k"
    and body: "body = take k (drop (h + 2) s1)"
    unfolding match_each_def sp
    by (auto split: if_splits option.splits)
  from match_header_Some [OF h] obtain ws1 ws2 ws3 r where
    s1: "s1 = ws1 @ p @ ws2 @ ''as'' @ ws3 @ item @ r"
    and ok: "padding ws1" "padding ws2" "padding ws3" "is_path p" "is_name item"
    and hl: "h = length (ws1 @ p @ ws2 @ ''as'' @ ws3 @ item)" by blast
  have dr: "drop h s1 = r" using s1 hl by simp
  with cl obtain r' where r: "r = ''}}'' @ r'" by (auto simp: starts_with_iff)
  have "drop (h + 2) s1 = drop 2 (drop h s1)" by (simp add: add.commute)
  with dr r have "drop (h + 2) s1 = r'" by simp
  with find_sub_Some [OF k [unfolded this]] body obtain post where
    "r' = body @ ''{{/each}}'' @ post" by auto
  with s s1 r have "s = each_open ws1 p ws2 ws3 item @ body @ ''{{/each}}'' @ post"
    by (simp add: each_open_def)
  with ok show ?thesis by blast
qed

text \<open>A capture of a scan comes from a match at some position of the text; so every
  name returned occurs in the text in one of the three roles.\<close>

lemma regex_scan_match:
  "Inr cap \<in> set (regex_scan m t) \<Longrightarrow> \<exists>pre rest n. t = pre @ rest \<and> m rest = Some (cap, n)"
proof (induction m t rule: regex_scan.induct)
  case (1 m)
  then show ?case by simp
next
  case (2 m c cs)
  show ?case
  proof (cases "m (c # cs)")
    case None
    with "2.prems" have "Inr cap \<in> set (regex_scan m cs)" by auto
    from "2.IH"(1) [OF None this] obtain pre rest n where
      "cs = pre @ rest" "m rest = Some (cap, n)" by blast
    then have "c # cs = (c # pre) @ rest" by simp
    with \<open>m rest = Some (cap, n)\<close> show ?thesis by blast
  next
    case (Some r)
    obtain cap' n' where r: "r = (cap', n')" by (cases r)
    show ?thesis
    proof (cases "cap = cap'")
      case True
      with Some r have "c # cs = [] @ (c # cs) \<and> m (c # cs) = Some (cap, n')" by simp
      then show ?thesis by blast
    next
      case False
      with "2.prems" Some r have "Inr cap \<in> set (regex_scan m (drop (n' - 1) cs))" by auto
      from "2.IH"(2) [OF Some r [symmetric] this] obtain pre rest n where
        d: "drop (n' - 1) cs = pre @ rest" and m: "m rest = Some (cap, n)" by blast
      have "c # cs = (c # take (n' - 1) cs @ pre) @ rest"
        using d by (metis append.assoc append_Cons append_take_drop_id)
      with m show ?thesis by blast
    qed
  qed
qed

lemma regex_matches_set: "set (regex_matches m t) = {cap. Inr cap \<in> set (regex_scan m t)}"
  by (auto simp: regex_matches_def split: sum.splits)

lemma regex_matches_match:
  "cap \<in> set (regex_matches m t) \<Longrightarrow> \<exists>pre rest n. t = pre @ rest \<and> m rest = Some (cap, n)"
  by (rule regex_scan_match) (simp add: regex_matches_set)

lemma names_set:
  "set (map vname (extractVariables t)) =
     trim ` set (regex_matches match_var t)
     \<union> (\<lambda>(condition, content). trim condition) ` set (regex_matches match_if t)
     \<union> (\<lambda>(arrayVar, itemName, content). trim arrayVar) ` set (regex_matches match_each t)"
  by (simp add: extractVariables_eq comp_def new_variable_def extract_matches_def set_add_fold_set)

lemma names_sound:
  assumes "n \<in> set (map vname (extractVariables t))"
  shows "occurs_reference t n \<or> occurs_condition t n \<or> occurs_source t n"
proof -
  from assms consider
    (var) cap where "cap \<in> set (regex_matches match_var t)" "n = trim cap"
    | (cond) c body where "(c, body) \<in> set (regex_matches match_if t)" "n = trim c"
    | (loop) p item body where "(p, item, body) \<in> set (regex_matches match_each t)" "n = trim p"
    unfolding names_set by auto
  then show ?thesis
  proof cases
    case var
    from regex_matches_match [OF var(1)] obtain pre rest k where
      t: "t = pre @ rest" and m: "match_var rest = Some (cap, k)" by blast
    from match_var_Some [OF m] obtain ws1 p ws2 post where
      r: "rest = reference ws1 p ws2 @ post" and ok: "spaces ws1" "spaces ws2" "is_path p"
      and cap: "cap = ws1 @ p @ ws2" by blast
    from var(2) cap ok have "n = p" by (simp add: trim_padded)
    moreover from t r have "occurs (reference ws1 p ws2) t" unfolding occurs_def by blast
    ultimately have "occurs_reference t n" using ok unfolding occurs_reference_def by blast
    then show ?thesis by simp
  next
    case cond
    from regex_matches_match [OF cond(1)] obtain pre rest k where
      t: "t = pre @ rest" and m: "match_if rest = Some ((c, body), k)" by blast
    from match_if_Some [OF m] obtain ws post where
      r: "rest = if_open ws c @ body @ ''{{/if}}'' @ post" and ok: "padding ws" "is_path c" by blast
    from cond(2) ok have "n = c" by (simp add: trim_is_path)
    moreover from t r have "occurs (if_open ws c @ body @ ''{{/if}}'') t"
      unfolding occurs_def by (metis append.assoc)
    ultimately have "occurs_condition t n" using ok unfolding occurs_condition_def by blast
    then show ?thesis by simp
  next
    case loop
    from regex_matches_match [OF loop(1)] obtain pre rest k where
      t: "t = pre @ rest" and m: "match_each rest = Some ((p, item, body), k)" by blast
    from match_each_Some [OF m] obtain ws1 ws2 ws3 post where
      r: "rest = each_open ws1 p ws2 ws3 item @ body @ ''{{/each}}'' @ post"
      and ok: "padding ws1" "padding ws2" "padding ws3" "is_path p" "is_name item" by blast
    from loop(2) ok have "n = p" by (simp add: trim_is_path)
    moreover from t r have "occurs (each_open ws1 p ws2 ws3 item @ body @ ''{{/each}}'') t"
      unfolding occurs_def by (metis append.assoc)
    ultimately have "occurs_source t n" using ok unfolding occurs_source_def by blast
    then show ?thesis by simp
  qed
qed

text \<open>A plain reference is matched where it stands, and no earlier match of the
  pattern for references reaches over its first brace: a match holds no opening brace
  behind its first two characters. So the scan finds every plain reference.\<close>

lemma span_prefix:
  "list_all P xs \<Longrightarrow> r = [] \<or> \<not> P (hd r) \<Longrightarrow>
   takeWhile P (xs @ r) = xs \<and> dropWhile P (xs @ r) = r"
  by (induction xs) (cases r; auto)+

lemma brace_classes: "\<not> is_space (CHR ''}'')" "\<not> is_path_char (CHR ''}'')"
  "\<not> is_space (CHR ''{'')" "\<not> is_path_char (CHR ''{'')"
  by (simp_all add: is_space_def is_path_char_def is_word_def)

lemma hd_path: "is_path p \<Longrightarrow> \<not> is_space (hd (p @ r))"
  by (cases p) (auto simp: is_path_def path_not_space)

lemma hd_spaces_close: "spaces ws \<Longrightarrow> \<not> is_path_char (hd (ws @ CHR ''}'' # r))"
  using path_not_space by (cases ws) (auto simp: spaces_def brace_classes)

lemma match_var_reference:
  assumes "spaces ws1" "spaces ws2" "is_path p"
  shows "match_var (reference ws1 p ws2 @ post)
         = Some (ws1 @ p @ ws2, length ws1 + length p + length ws2 + 4)"
proof -
  let ?r = "CHR ''}'' # CHR ''}'' # post"
  have sp: "strip_prefix ''{{'' (reference ws1 p ws2 @ post) = Some (ws1 @ p @ ws2 @ ?r)"
    by (simp add: strip_prefix_Some reference_def)
  have 1: "takeWhile is_space (ws1 @ p @ ws2 @ ?r) = ws1
           \<and> dropWhile is_space (ws1 @ p @ ws2 @ ?r) = p @ ws2 @ ?r"
    using assms(1) hd_path [OF assms(3)] by (intro span_prefix) (simp_all add: spaces_def)
  have 2: "takeWhile is_path_char (p @ ws2 @ ?r) = p
           \<and> dropWhile is_path_char (p @ ws2 @ ?r) = ws2 @ ?r"
    using assms(3) hd_spaces_close [OF assms(2)] by (intro span_prefix) (simp_all add: is_path_def)
  have 3: "takeWhile is_space (ws2 @ ?r) = ws2 \<and> dropWhile is_space (ws2 @ ?r) = ?r"
    using assms(2) by (intro span_prefix) (simp_all add: spaces_def brace_classes)
  from assms(3) have ne: "p \<noteq> []" by (simp add: is_path_def)
  show ?thesis
    unfolding match_var_def sp by (simp add: 1 2 3 ne Let_def)
qed

lemma capture_no_brace:
  "spaces ws1 \<Longrightarrow> spaces ws2 \<Longrightarrow> is_path p \<Longrightarrow> CHR ''{'' \<notin> set (ws1 @ p @ ws2)"
  by (auto simp: spaces_def is_path_def list_all_iff brace_classes)

lemma nth_in_reference:
  assumes "CHR ''{'' \<notin> set cap" "2 \<le> i" "i < length cap + 4"
  shows "(''{{'' @ cap @ ''}}'' @ post) ! i \<noteq> CHR ''{''"
proof -
  from assms(2) obtain j where i: "i = Suc (Suc j)" by (metis add_2_eq_Suc le_Suc_ex)
  with assms(3) have j: "j < length cap + 2" by simp
  have "(cap @ ''}}'' @ post) ! j \<noteq> CHR ''{''"
  proof (cases "j < length cap")
    case True
    from nth_mem [OF True] assms(1) have "cap ! j \<noteq> CHR ''{''" by metis
    with True show ?thesis by (simp add: nth_append)
  next
    case False
    with j have "j - length cap = 0 \<or> j - length cap = 1" by auto
    with False show ?thesis by (auto simp: nth_append)
  qed
  with i show ?thesis by simp
qed

lemma match_var_no_overlap:
  assumes m: "match_var s = Some (cap, n)"
    and s: "s = pre @ ''{{'' @ r" and pre: "pre \<noteq> []"
  shows "n \<le> length pre"
proof (rule ccontr)
  assume "\<not> n \<le> length pre"
  then have lt: "length pre < n" by simp
  from match_var_Some [OF m] obtain ws1 p ws2 post where
    d: "s = reference ws1 p ws2 @ post" and ok: "spaces ws1" "spaces ws2" "is_path p"
    and cap: "cap = ws1 @ p @ ws2" and n: "n = length cap + 4" by blast
  from ok cap have nb: "CHR ''{'' \<notin> set cap" using capture_no_brace by simp
  from ok(3) cap have ne: "cap \<noteq> []" by (simp add: is_path_def)
  from d cap have d': "s = ''{{'' @ cap @ ''}}'' @ post" by (simp add: reference_def)
  have a: "s ! length pre = CHR ''{''" and b: "s ! Suc (length pre) = CHR ''{''"
    using s by (simp_all add: nth_append)
  show False
  proof (cases "2 \<le> length pre")
    case True
    from nth_in_reference [OF nb True, of post] lt n a d' show False by simp
  next
    case False
    moreover from pre have "0 < length pre" by simp
    ultimately have "Suc (length pre) = 2" by arith
    moreover have "2 < length cap + 4" by simp
    ultimately show False
      using nth_in_reference [OF nb _ \<open>2 < length cap + 4\<close>, of post] b d' by simp
  qed
qed

lemma regex_scan_reference:
  assumes "spaces ws1" "spaces ws2" "is_path p"
  shows "Inr (ws1 @ p @ ws2) \<in> set (regex_scan match_var (pre @ reference ws1 p ws2 @ post))"
proof (induction "length pre" arbitrary: pre rule: less_induct)
  case less
  show ?case
  proof (cases pre)
    case Nil
    obtain c cs where cs: "reference ws1 p ws2 @ post = c # cs"
      by (simp add: reference_def)
    from match_var_reference [OF assms, of post] cs Nil show ?thesis by simp
  next
    case (Cons c pre')
    let ?cs = "pre' @ reference ws1 p ws2 @ post"
    show ?thesis
    proof (cases "match_var (c # ?cs)")
      case None
      from less [of pre'] Cons have "Inr (ws1 @ p @ ws2) \<in> set (regex_scan match_var ?cs)" by simp
      with None Cons show ?thesis by simp
    next
      case (Some r)
      obtain cap n where r: "r = (cap, n)" by (cases r)
      have "c # ?cs = pre @ ''{{'' @ (ws1 @ p @ ws2 @ ''}}'' @ post)"
        using Cons by (simp add: reference_def)
      from match_var_no_overlap [OF Some [unfolded r] this] Cons have n: "n \<le> length pre" by simp
      from match_var_Some [OF Some [unfolded r]] have "0 < n" by auto
      with n Cons have "drop (n - 1) ?cs = drop (n - 1) pre' @ reference ws1 p ws2 @ post"
        by simp
      moreover have "length (drop (n - 1) pre') < length pre" using Cons by simp
      ultimately have "Inr (ws1 @ p @ ws2) \<in> set (regex_scan match_var (drop (n - 1) ?cs))"
        using less [of "drop (n - 1) pre'"] by simp
      with Some r Cons show ?thesis by simp
    qed
  qed
qed

lemma names_reference:
  assumes "occurs_reference t p"
  shows "p \<in> set (map vname (extractVariables t))"
proof -
  from assms obtain ws1 ws2 pre post where ok: "spaces ws1" "spaces ws2" "is_path p"
    and t: "t = pre @ reference ws1 p ws2 @ post"
    unfolding occurs_reference_def occurs_def by blast
  from regex_scan_reference [OF ok, of pre post] t
  have "ws1 @ p @ ws2 \<in> set (regex_matches match_var t)" by (simp add: regex_matches_set)
  then have "trim (ws1 @ p @ ws2) \<in> trim ` set (regex_matches match_var t)" by (rule imageI)
  with ok show ?thesis unfolding names_set by (simp add: trim_padded)
qed

text \<open>Conditionals and loops: the scan passes a stretch without opening marker
  character by character, and a block that ends at its first closing marker is consumed
  exactly; so the header behind a text of such stretches and blocks is reached.\<close>

lemma no_straddle_if:
  assumes "a \<noteq> []" "\<not> occurs ''{{#if'' a" "starts_with ''{{#if'' r"
  shows "\<not> starts_with ''{{#if'' (a @ r)"
proof
  assume "starts_with ''{{#if'' (a @ r)"
  then obtain v where v: "a @ r = ''{{#if'' @ v" by (auto simp: starts_with_iff)
  from assms(3) obtain v' where r: "r = ''{{#if'' @ v'" by (auto simp: starts_with_iff)
  from v obtain u where "(a @ u = ''{{#if'' \<and> r = u @ v) \<or> (a = ''{{#if'' @ u \<and> u @ r = v)"
    unfolding append_eq_append_conv2 by blast
  then show False
  proof
    assume "a = ''{{#if'' @ u \<and> u @ r = v"
    then have "occurs ''{{#if'' a" unfolding occurs_def by (metis append_Nil)
    with assms(2) show False by simp
  next
    assume h: "a @ u = ''{{#if'' \<and> r = u @ v"
    have "u \<noteq> []"
    proof
      assume "u = []"
      with h have "a = [] @ ''{{#if'' @ []" by simp
      then have "occurs ''{{#if'' a" unfolding occurs_def by blast
      with assms(2) show False by simp
    qed
    with h r assms(1) show False
      by (auto simp: append_eq_Cons_conv Cons_eq_append_conv)
  qed
qed

lemma no_straddle_each:
  assumes "a \<noteq> []" "\<not> occurs ''{{#each'' a" "starts_with ''{{#each'' r"
  shows "\<not> starts_with ''{{#each'' (a @ r)"
proof
  assume "starts_with ''{{#each'' (a @ r)"
  then obtain v where v: "a @ r = ''{{#each'' @ v" by (auto simp: starts_with_iff)
  from assms(3) obtain v' where r: "r = ''{{#each'' @ v'" by (auto simp: starts_with_iff)
  from v obtain u where "(a @ u = ''{{#each'' \<and> r = u @ v) \<or> (a = ''{{#each'' @ u \<and> u @ r = v)"
    unfolding append_eq_append_conv2 by blast
  then show False
  proof
    assume "a = ''{{#each'' @ u \<and> u @ r = v"
    then have "occurs ''{{#each'' a" unfolding occurs_def by (metis append_Nil)
    with assms(2) show False by simp
  next
    assume h: "a @ u = ''{{#each'' \<and> r = u @ v"
    have "u \<noteq> []"
    proof
      assume "u = []"
      with h have "a = [] @ ''{{#each'' @ []" by simp
      then have "occurs ''{{#each'' a" unfolding occurs_def by blast
      with assms(2) show False by simp
    qed
    with h r assms(1) show False
      by (auto simp: append_eq_Cons_conv Cons_eq_append_conv)
  qed
qed

lemma regex_scan_skip:
  assumes m: "\<And>s. \<not> starts_with op s \<Longrightarrow> m s = None"
    and ns: "\<And>a r. a \<noteq> [] \<Longrightarrow> \<not> occurs op a \<Longrightarrow> starts_with op r \<Longrightarrow> \<not> starts_with op (a @ r)"
    and r: "starts_with op r"
  shows "\<not> occurs op a \<Longrightarrow> regex_scan m (a @ r) = map Inl a @ regex_scan m r"
proof (induction a)
  case Nil
  then show ?case by simp
next
  case (Cons c a)
  from ns [OF _ Cons.prems r] have "m ((c # a) @ r) = None" by (intro m) simp
  moreover from Cons.prems have "\<not> occurs op a" using occurs_Cons by blast
  ultimately show ?case using Cons.IH by simp
qed

lemma match_if_prefix: "\<not> starts_with ''{{#if'' s \<Longrightarrow> match_if s = None"
  by (simp add: match_if_def strip_prefix_def)

lemma match_each_prefix: "\<not> starts_with ''{{#each'' s \<Longrightarrow> match_each s = None"
  by (simp add: match_each_def strip_prefix_def)

lemma hd_padding: "padding ws \<Longrightarrow> \<not> is_path_char (hd (ws @ r))"
  using path_not_space by (cases ws) (auto simp: padding_def spaces_def)

lemma hd_name: "is_name n \<Longrightarrow> \<not> is_space (hd (n @ r))"
  by (cases n) (auto simp: is_name_def path_not_space word_path)

lemma match_if_open:
  assumes "padding ws" "is_path c"
  shows "match_if (if_open ws c @ rest) =
           (case find_sub ''{{/if}}'' rest of
              None \<Rightarrow> None
            | Some k \<Rightarrow> Some ((c, take k rest), length ws + length c + k + 14))"
proof -
  let ?r = "CHR ''}'' # CHR ''}'' # rest"
  have sp: "strip_prefix ''{{#if'' (if_open ws c @ rest) = Some (ws @ c @ ?r)"
    by (simp add: strip_prefix_Some if_open_def)
  have 1: "takeWhile is_space (ws @ c @ ?r) = ws \<and> dropWhile is_space (ws @ c @ ?r) = c @ ?r"
    using assms(1) hd_path [OF assms(2)] by (intro span_prefix) (simp_all add: padding_def spaces_def)
  have 2: "takeWhile is_path_char (c @ ?r) = c \<and> dropWhile is_path_char (c @ ?r) = ?r"
    using assms(2) by (intro span_prefix) (simp_all add: is_path_def brace_classes)
  from assms have ne: "ws \<noteq> []" "c \<noteq> []" by (simp_all add: is_path_def padding_def)
  show ?thesis
    unfolding match_if_def sp by (simp add: 1 2 ne Let_def split: option.split)
qed

lemma length_if_open: "length (if_open ws c) = length ws + length c + 7"
  by (simp add: if_open_def)

lemma match_if_block:
  assumes "padding ws" "is_path c" "\<not> occurs ''{{/if}}'' (body @ ''{{/if}'')"
  shows "match_if (if_open ws c @ body @ ''{{/if}}'' @ post)
         = Some ((c, body), length (if_open ws c @ body @ ''{{/if}}''))"
proof -
  have fs: "find_sub ''{{/if}}'' (body @ ''{{/if}}'' @ post) = Some (length body)"
    using assms(3) by (intro find_sub_first) simp_all
  have "match_if (if_open ws c @ (body @ ''{{/if}}'' @ post))
        = Some ((c, take (length body) (body @ ''{{/if}}'' @ post)),
                length ws + length c + length body + 14)"
    unfolding match_if_open [OF assms(1,2)] fs by simp
  then show ?thesis by (simp add: length_if_open)
qed

lemma regex_scan_Some:
  "m s = Some (cap, n) \<Longrightarrow> 0 < n \<Longrightarrow> s \<noteq> [] \<Longrightarrow> regex_scan m s = Inr cap # regex_scan m (drop n s)"
  by (cases s) (auto simp: drop_Cons')

lemma flat_conditionals_scan:
  "flat_conditionals pre \<Longrightarrow> starts_with ''{{#if'' r \<Longrightarrow>
   \<exists>found. regex_scan match_if (pre @ r) = found @ regex_scan match_if r"
proof (induction arbitrary: r rule: flat_conditionals.induct)
  case (1 a)
  from regex_scan_skip [of "''{{#if''" match_if, OF match_if_prefix no_straddle_if "1.prems" "1.hyps"]
  show ?case by blast
next
  case (2 a ws c body b)
  define blk where "blk = if_open ws c @ body @ ''{{/if}}''"
  have st: "starts_with ''{{#if'' (blk @ b @ r)" by (simp add: blk_def if_open_def)
  from regex_scan_skip [of "''{{#if''" match_if, OF match_if_prefix no_straddle_if st "2.hyps"(1)]
  have 1: "regex_scan match_if (a @ blk @ b @ r) = map Inl a @ regex_scan match_if (blk @ b @ r)"
    by simp
  from match_if_block [OF "2.hyps"(2,3,4), of "b @ r"]
  have m: "match_if (blk @ b @ r) = Some ((c, body), length blk)" by (simp add: blk_def)
  have ne: "0 < length blk" "blk @ b @ r \<noteq> []" by (simp_all add: blk_def if_open_def)
  from regex_scan_Some [of match_if, OF m ne]
  have 2: "regex_scan match_if (blk @ b @ r) = Inr (c, body) # regex_scan match_if (b @ r)"
    by simp
  from "2.IH" [OF "2.prems"] obtain found where
    3: "regex_scan match_if (b @ r) = found @ regex_scan match_if r" by blast
  have "regex_scan match_if ((a @ blk @ b) @ r)
        = (map Inl a @ Inr (c, body) # found) @ regex_scan match_if r"
    using 1 2 3 by simp
  then show ?case unfolding blk_def by (metis append.assoc)
qed

lemma names_condition:
  assumes "flat_conditionals pre" "padding ws" "is_path c" "occurs ''{{/if}}'' rest"
  shows "c \<in> set (map vname (extractVariables (pre @ if_open ws c @ rest)))"
proof -
  from assms(4) obtain k where "find_sub ''{{/if}}'' rest = Some k"
    using find_sub_occurs [of "''{{/if}}''" rest] by auto
  with match_if_open [OF assms(2,3), of rest]
  have "match_if (if_open ws c @ rest) = Some ((c, take k rest), length ws + length c + k + 14)"
    by simp
  moreover have "if_open ws c @ rest \<noteq> []" by (simp add: if_open_def)
  ultimately have "regex_scan match_if (if_open ws c @ rest)
      = Inr (c, take k rest)
        # regex_scan match_if (drop (length ws + length c + k + 14) (if_open ws c @ rest))"
    by (intro regex_scan_Some) simp_all
  then have "Inr (c, take k rest) \<in> set (regex_scan match_if (if_open ws c @ rest))"
    by simp
  moreover have "starts_with ''{{#if'' (if_open ws c @ rest)" by (simp add: if_open_def)
  from flat_conditionals_scan [OF assms(1) this] obtain found where
    "regex_scan match_if (pre @ if_open ws c @ rest)
     = found @ regex_scan match_if (if_open ws c @ rest)" by blast
  ultimately have "(c, take k rest) \<in> set (regex_matches match_if (pre @ if_open ws c @ rest))"
    by (simp add: regex_matches_set)
  then have "(\<lambda>(condition, content). trim condition) (c, take k rest)
             \<in> (\<lambda>(condition, content). trim condition) ` set (regex_matches match_if (pre @ if_open ws c @ rest))"
    by (rule imageI)
  with assms(3) show ?thesis unfolding names_set by (simp add: trim_is_path)
qed

lemma not_word_brace: "\<not> is_word (CHR ''}'')" "\<not> is_space (CHR ''a'')"
  by (simp_all add: is_word_def is_space_def)

lemma match_header_open:
  assumes "padding ws1" "padding ws2" "padding ws3" "is_path p" "is_name item"
  shows "match_header (ws1 @ p @ ws2 @ ''as'' @ ws3 @ item @ ''}}'' @ rest)
         = Some ((p, item), length ws1 + length p + length ws2 + 2 + length ws3 + length item)"
proof -
  let ?r = "CHR ''}'' # CHR ''}'' # rest"
  let ?s4 = "ws3 @ item @ ?r"
  let ?s3 = "CHR ''a'' # CHR ''s'' # ?s4"
  have 1: "takeWhile is_space (ws1 @ p @ ws2 @ ?s3) = ws1
           \<and> dropWhile is_space (ws1 @ p @ ws2 @ ?s3) = p @ ws2 @ ?s3"
    using assms(1) hd_path [OF assms(4)] by (intro span_prefix) (simp_all add: padding_def spaces_def)
  have 2: "takeWhile is_path_char (p @ ws2 @ ?s3) = p
           \<and> dropWhile is_path_char (p @ ws2 @ ?s3) = ws2 @ ?s3"
    using assms(4) hd_padding [OF assms(2)] by (intro span_prefix) (simp_all add: is_path_def)
  have 3: "takeWhile is_space (ws2 @ ?s3) = ws2 \<and> dropWhile is_space (ws2 @ ?s3) = ?s3"
    using assms(2) by (intro span_prefix) (simp_all add: padding_def spaces_def not_word_brace)
  have 4: "takeWhile is_space (ws3 @ item @ ?r) = ws3 \<and> dropWhile is_space (ws3 @ item @ ?r) = item @ ?r"
    using assms(3) hd_name [OF assms(5)] by (intro span_prefix) (simp_all add: padding_def spaces_def)
  have 5: "takeWhile is_word (item @ ?r) = item \<and> dropWhile is_word (item @ ?r) = ?r"
    using assms(5) by (intro span_prefix) (simp_all add: is_name_def not_word_brace)
  from assms have ne: "ws1 \<noteq> []" "ws2 \<noteq> []" "ws3 \<noteq> []" "p \<noteq> []" "item \<noteq> []"
    by (simp_all add: is_path_def is_name_def padding_def)
  show ?thesis
    unfolding match_header_def by (simp add: 1 2 3 4 5 ne Let_def)
qed

lemma length_each_open:
  "length (each_open ws1 p ws2 ws3 item)
   = length ws1 + length p + length ws2 + length ws3 + length item + 11"
  by (simp add: each_open_def)

lemma match_each_open:
  assumes "padding ws1" "padding ws2" "padding ws3" "is_path p" "is_name item"
  shows "match_each (each_open ws1 p ws2 ws3 item @ rest) =
           (case find_sub ''{{/each}}'' rest of
              None \<Rightarrow> None
            | Some k \<Rightarrow> Some ((p, item, take k rest),
                length (each_open ws1 p ws2 ws3 item) + k + 9))"
proof -
  let ?h = "ws1 @ p @ ws2 @ ''as'' @ ws3 @ item"
  let ?n = "length ws1 + length p + length ws2 + 2 + length ws3 + length item"
  have sp: "strip_prefix ''{{#each'' (each_open ws1 p ws2 ws3 item @ rest)
            = Some (?h @ ''}}'' @ rest)"
    by (simp add: strip_prefix_Some each_open_def)
  have h: "match_header (?h @ ''}}'' @ rest) = Some ((p, item), ?n)"
    using match_header_open [OF assms, of rest] by simp
  have n: "?n = length ?h" by simp
  have d: "drop ?n (?h @ ''}}'' @ rest) = ''}}'' @ rest"
    unfolding n by (rule append_eq_conv_conj [THEN iffD1, THEN conjunct2, symmetric]) simp
  have "drop (?n + 2) (?h @ ''}}'' @ rest) = drop 2 (drop ?n (?h @ ''}}'' @ rest))"
    by (simp only: drop_drop add.commute)
  with d have d2: "drop (?n + 2) (?h @ ''}}'' @ rest) = rest" by simp
  have st: "starts_with ''}}'' (''}}'' @ rest)" by (simp add: starts_with_iff)
  show ?thesis
    apply (simp only: match_each_def sp option.case h prod.case d d2 st if_True)
    apply (simp add: length_each_open split: option.split)
    done
qed

lemma match_each_block:
  assumes "padding ws1" "padding ws2" "padding ws3" "is_path p" "is_name item"
    and "\<not> occurs ''{{/each}}'' (body @ ''{{/each}'')"
  shows "match_each (each_open ws1 p ws2 ws3 item @ body @ ''{{/each}}'' @ post)
         = Some ((p, item, body), length (each_open ws1 p ws2 ws3 item @ body @ ''{{/each}}''))"
proof -
  have fs: "find_sub ''{{/each}}'' (body @ ''{{/each}}'' @ post) = Some (length body)"
    using assms(6) by (intro find_sub_first) simp_all
  have "match_each (each_open ws1 p ws2 ws3 item @ (body @ ''{{/each}}'' @ post))
        = Some ((p, item, take (length body) (body @ ''{{/each}}'' @ post)),
                length (each_open ws1 p ws2 ws3 item) + length body + 9)"
    unfolding match_each_open [OF assms(1-5)] fs by simp
  then show ?thesis by simp
qed

lemma flat_loops_scan:
  "flat_loops pre \<Longrightarrow> starts_with ''{{#each'' r \<Longrightarrow>
   \<exists>found. regex_scan match_each (pre @ r) = found @ regex_scan match_each r"
proof (induction arbitrary: r rule: flat_loops.induct)
  case (1 a)
  from regex_scan_skip [of "''{{#each''" match_each, OF match_each_prefix no_straddle_each "1.prems" "1.hyps"]
  show ?case by blast
next
  case (2 a ws1 ws2 ws3 p item body b)
  define blk where "blk = each_open ws1 p ws2 ws3 item @ body @ ''{{/each}}''"
  have st: "starts_with ''{{#each'' (blk @ b @ r)" by (simp add: blk_def each_open_def)
  from regex_scan_skip [of "''{{#each''" match_each, OF match_each_prefix no_straddle_each st "2.hyps"(1)]
  have 1: "regex_scan match_each (a @ blk @ b @ r) = map Inl a @ regex_scan match_each (blk @ b @ r)"
    by simp
  from match_each_block [OF "2.hyps"(2-7), of "b @ r"]
  have m: "match_each (blk @ b @ r) = Some ((p, item, body), length blk)" by (simp add: blk_def)
  have ne: "0 < length blk" "blk @ b @ r \<noteq> []" by (simp_all add: blk_def each_open_def)
  from regex_scan_Some [of match_each, OF m ne]
  have 2: "regex_scan match_each (blk @ b @ r) = Inr (p, item, body) # regex_scan match_each (b @ r)"
    by simp
  from "2.IH" [OF "2.prems"] obtain found where
    3: "regex_scan match_each (b @ r) = found @ regex_scan match_each r" by blast
  have "regex_scan match_each ((a @ blk @ b) @ r)
        = (map Inl a @ Inr (p, item, body) # found) @ regex_scan match_each r"
    using 1 2 3 by simp
  then show ?case unfolding blk_def by (metis append.assoc)
qed

lemma names_source:
  assumes "flat_loops pre" "padding ws1" "padding ws2" "padding ws3" "is_path p" "is_name item"
    and "occurs ''{{/each}}'' rest"
  shows "p \<in> set (map vname (extractVariables (pre @ each_open ws1 p ws2 ws3 item @ rest)))"
proof -
  let ?open = "each_open ws1 p ws2 ws3 item"
  from assms(7) obtain k where "find_sub ''{{/each}}'' rest = Some k"
    using find_sub_occurs [of "''{{/each}}''" rest] by auto
  with match_each_open [OF assms(2-6), of rest]
  have "match_each (?open @ rest) = Some ((p, item, take k rest), length ?open + k + 9)"
    by simp
  moreover have "?open @ rest \<noteq> []" by (simp add: each_open_def)
  ultimately have "regex_scan match_each (?open @ rest)
      = Inr (p, item, take k rest)
        # regex_scan match_each (drop (length ?open + k + 9) (?open @ rest))"
    by (intro regex_scan_Some) simp_all
  then have "Inr (p, item, take k rest) \<in> set (regex_scan match_each (?open @ rest))"
    by simp
  moreover have "starts_with ''{{#each'' (?open @ rest)" by (simp add: each_open_def)
  from flat_loops_scan [OF assms(1) this] obtain found where
    "regex_scan match_each (pre @ ?open @ rest) = found @ regex_scan match_each (?open @ rest)"
    by blast
  ultimately have "(p, item, take k rest) \<in> set (regex_matches match_each (pre @ ?open @ rest))"
    by (simp add: regex_matches_set)
  then have "(\<lambda>(arrayVar, itemName, content). trim arrayVar) (p, item, take k rest)
             \<in> (\<lambda>(arrayVar, itemName, content). trim arrayVar) ` set (regex_matches match_each (pre @ ?open @ rest))"
    by (rule imageI)
  with assms(5) show ?thesis unfolding names_set by (simp add: trim_is_path)
qed

text \<open>
  C3, as first stated: one entry per distinct path used as a plain reference, as a
  condition or as a loop source, and never the item name of a loop. It fails: a plain
  reference to the item in the body of a loop is a plain reference like any other, and
  the item name is returned.
\<close>

theorem extractVariables_counterexample:
  "''x'' \<in> set (map vname (extractVariables ''{{#each xs as x}}-{{x}}{{/each}}''))"
  by code_simp

text \<open>
  The condition of a conditional that stands inside the body of another one is not
  returned: the pattern for conditionals ends the outer block at the first closing
  marker, and the scan goes on behind it. The amended statement below promises the
  conditions and sources of blocks that are not nested only.
\<close>

lemma extractVariables_nested_condition:
  "map vname (extractVariables ''{{#if a}}{{#if b}}X{{/if}}Y{{/if}}'') = [''a'']"
  by code_simp

text \<open>
  C3, amended. For every template text the names returned are distinct, and every entry
  has type string, is required and has neither default nor validation. Every name
  returned is a dotted path that occurs in the text as a plain reference, as the
  condition of a conditional or as the source path of a loop; so the item name of a
  loop is not returned for standing in the header. Every path that occurs as a plain
  reference is returned, also a reference to the item of a loop in its body. The
  condition of a conditional is returned when the text before its header is made of
  stretches without opening marker and of conditionals closed by their first closing
  marker, and a closing marker follows the header; likewise the source path of a loop.
\<close>

theorem extractVariables_names:
  "distinct (map vname (extractVariables t))
   \<and> list_all (\<lambda>v. vtype v = TString \<and> required v = True \<and> vdefault v = None \<and> validation v = None)
         (extractVariables t)
   \<and> (\<forall>n \<in> set (map vname (extractVariables t)).
         occurs_reference t n \<or> occurs_condition t n \<or> occurs_source t n)
   \<and> (occurs_reference t p \<longrightarrow> p \<in> set (map vname (extractVariables t)))
   \<and> (flat_conditionals pre \<and> padding ws \<and> is_path c \<and> occurs ''{{/if}}'' rest
         \<and> t = pre @ if_open ws c @ rest
       \<longrightarrow> c \<in> set (map vname (extractVariables t)))
   \<and> (flat_loops lead \<and> padding wa \<and> padding wb \<and> padding wc \<and> is_path q \<and> is_name item
         \<and> occurs ''{{/each}}'' tail \<and> t = lead @ each_open wa q wb wc item @ tail
       \<longrightarrow> q \<in> set (map vname (extractVariables t)))"
proof -
  have "distinct (extract_matches t)"
    unfolding extract_matches_def by (rule set_add_fold_distinct) simp
  then have 1: "distinct (map vname (extractVariables t))"
    by (simp add: extractVariables_eq comp_def new_variable_def)
  have 2: "list_all (\<lambda>v. vtype v = TString \<and> required v = True \<and> vdefault v = None \<and> validation v = None)
         (extractVariables t)"
    by (simp add: extractVariables_eq list_all_iff new_variable_def)
  have 3: "\<forall>n \<in> set (map vname (extractVariables t)).
         occurs_reference t n \<or> occurs_condition t n \<or> occurs_source t n"
    using names_sound by blast
  have 4: "occurs_reference t p \<longrightarrow> p \<in> set (map vname (extractVariables t))"
    using names_reference by blast
  have 5: "flat_conditionals pre \<and> padding ws \<and> is_path c \<and> occurs ''{{/if}}'' rest
         \<and> t = pre @ if_open ws c @ rest
       \<longrightarrow> c \<in> set (map vname (extractVariables t))"
    using names_condition by blast
  have 6: "flat_loops lead \<and> padding wa \<and> padding wb \<and> padding wc \<and> is_path q \<and> is_name item
         \<and> occurs ''{{/each}}'' tail \<and> t = lead @ each_open wa q wb wc item @ tail
       \<longrightarrow> q \<in> set (map vname (extractVariables t))"
    using names_source by blast
  from 1 2 3 4 5 6 show ?thesis by (intro conjI)
qed

theorem extractVariables_names_witness:
  "occurs_reference ''{{#if flag}}Y{{/if}}{{#if other}}N{{/if}}{{#each xs as x}}-{{x}}{{/each}}'' ''x''
   \<and> flat_conditionals ''{{#if flag}}Y{{/if}}''
   \<and> flat_loops ''{{#if flag}}Y{{/if}}{{#if other}}N{{/if}}''
   \<and> {''x'', ''other'', ''xs''}
       \<subseteq> set (map vname (extractVariables
           ''{{#if flag}}Y{{/if}}{{#if other}}N{{/if}}{{#each xs as x}}-{{x}}{{/each}}''))
   \<and> (occurs_reference ''{{#if flag}}Y{{/if}}{{#if other}}N{{/if}}{{#each xs as x}}-{{x}}{{/each}}'' ''flag''
      \<or> occurs_condition ''{{#if flag}}Y{{/if}}{{#if other}}N{{/if}}{{#each xs as x}}-{{x}}{{/each}}'' ''flag''
      \<or> occurs_source ''{{#if flag}}Y{{/if}}{{#if other}}N{{/if}}{{#each xs as x}}-{{x}}{{/each}}'' ''flag'')"
proof -
  let ?T = "''{{#if flag}}Y{{/if}}{{#if other}}N{{/if}}{{#each xs as x}}-{{x}}{{/each}}''"
  let ?P = "''{{#if flag}}Y{{/if}}''"
  let ?P' = "''{{#if flag}}Y{{/if}}{{#if other}}N{{/if}}''"
  let ?R = "''N{{/if}}{{#each xs as x}}-{{x}}{{/each}}''"
  let ?R' = "''-{{x}}{{/each}}''"
  have sp: "spaces []" "padding '' ''" by (simp_all add: spaces_def padding_def is_space_def)
  have pa: "is_path ''x''" "is_path ''flag''" "is_path ''other''" "is_path ''xs''" "is_name ''x''"
    by (simp_all add: is_path_def is_name_def is_path_char_def is_word_def)
  have "occurs (reference [] ''x'' []) ?T" by (simp add: occurs_eval reference_def)
  with sp pa have r: "occurs_reference ?T ''x''" unfolding occurs_reference_def by blast
  have e: "flat_conditionals []" "flat_loops []"
    by (rule flat_conditionals.intros(1) flat_loops.intros(1), simp add: occurs_eval)+
  have "flat_conditionals ([] @ if_open '' '' ''flag'' @ ''Y'' @ ''{{/if}}'' @ [])"
    using sp pa e by (intro flat_conditionals.intros(2)) (simp_all add: occurs_eval)
  then have fc: "flat_conditionals ?P" by (simp add: if_open_def)
  have fl: "flat_loops ?P'" by (rule flat_loops.intros(1)) (simp add: occurs_eval)
  have oc: "occurs ''{{/if}}'' ?R" "occurs ''{{/each}}'' ?R'" by (simp_all add: occurs_eval)
  have eq: "?T = ?P @ if_open '' '' ''other'' @ ?R"
    "?T = ?P' @ each_open '' '' ''xs'' '' '' '' '' ''x'' @ ?R'"
    by (simp_all add: if_open_def each_open_def)
  note T = extractVariables_names [where t = ?T and p = "''x''" and pre = ?P and ws = "'' ''"
      and c = "''other''" and rest = ?R and lead = ?P' and wa = "'' ''" and q = "''xs''"
      and wb = "'' ''" and wc = "'' ''" and item = "''x''" and tail = ?R']
  from T r have 1: "''x'' \<in> set (map vname (extractVariables ?T))" by blast
  from T fc sp pa oc eq have 2: "''other'' \<in> set (map vname (extractVariables ?T))" by blast
  from T fl sp pa oc eq have 3: "''xs'' \<in> set (map vname (extractVariables ?T))" by blast
  have "''flag'' \<in> set (map vname (extractVariables ?T))" by code_simp
  with T have 4: "occurs_reference ?T ''flag'' \<or> occurs_condition ?T ''flag'' \<or> occurs_source ?T ''flag''"
    by blast
  from r fc fl 1 2 3 4 show ?thesis by simp
qed

text \<open>The item name of a loop whose body does not refer to it is not returned, and a
  path used twice is returned once.\<close>

lemma extractVariables_item_name:
  "map vname (extractVariables ''{{#each xs as x}}-{{/each}}'') = [''xs'']"
  "map vname (extractVariables ''{{a.b}} {{ a.b }}{{#if a.b}}Y{{/if}}'') = [''a.b'']"
  by code_simp+

section \<open>Properties of the inheritance resolver\<close>

subsection \<open>mergeVariables\<close>

lemma findIndex_None: "findIndex P xs = None \<longleftrightarrow> (\<forall>x \<in> set xs. \<not> P x)"
  by (induction xs) auto

lemma findIndex_Some: "findIndex P xs = Some i \<Longrightarrow> i < length xs \<and> P (xs ! i)"
  by (induction xs arbitrary: i) (auto split: if_splits)

lemma find_distinct_name:
  assumes "distinct (map vname cs)" and "c \<in> set cs"
  shows "find (\<lambda>x. vname x = vname c) cs = Some c"
  using assms by (induction cs) (auto simp: image_iff)

lemma find_None_name: "vname c \<notin> vname ` set cs \<Longrightarrow> find (\<lambda>x. vname x = vname c) cs = None"
  by (induction cs) auto

lemma mergeVariables_loop_spec:
  "distinct (map vname M) \<Longrightarrow> distinct (map vname C) \<Longrightarrow>
   mergeVariables_loop M C = mergeVariables_spec M C"
proof (induction C arbitrary: M)
  case Nil
  then show ?case by (simp add: mergeVariables_spec_def)
next
  case (Cons c cs)
  from Cons.prems have dcs: "distinct (map vname cs)" and fresh: "vname c \<notin> vname ` set cs"
    by auto
  show ?case
  proof (cases "findIndex (\<lambda>v. vname v = vname c) M")
    case None
    then have notin: "vname c \<notin> vname ` set M" by (auto simp: findIndex_None)
    have dM': "distinct (map vname (M @ [c]))" using Cons.prems(1) notin by auto
    have "mergeVariables_loop M (c # cs) = mergeVariables_spec (M @ [c]) cs"
      using None Cons.IH [OF dM' dcs] by simp
    also have "\<dots> = mergeVariables_spec M (c # cs)"
      using notin fresh
      by (auto simp: mergeVariables_spec_def find_None_name image_iff intro!: filter_cong)
    finally show ?thesis .
  next
    case (Some i)
    from findIndex_Some [OF Some] have i: "i < length M" and nm: "vname (M ! i) = vname c"
      by auto
    have names: "map vname (M[i := c]) = map vname M"
      using i nm by (simp add: map_update list_update_same_conv)
    then have dM': "distinct (map vname (M[i := c]))" using Cons.prems(1) by simp
    have sets: "vname ` set (M[i := c]) = vname ` set M"
      using names by (metis set_map)
    have "mergeVariables_loop M (c # cs) = mergeVariables_spec (M[i := c]) cs"
      using Some Cons.IH [OF dM' dcs] by simp
    also have "\<dots> = mergeVariables_spec M (c # cs)"
    proof -
      have inM: "vname c \<in> vname ` set M" using i nm by (metis image_eqI nth_mem)
      have "map (\<lambda>p. case find (\<lambda>x. vname x = vname p) cs of Some x \<Rightarrow> x | None \<Rightarrow> p) (M[i := c])
          = map (\<lambda>p. case find (\<lambda>x. vname x = vname p) (c # cs) of Some x \<Rightarrow> x | None \<Rightarrow> p) M"
      proof (rule nth_equalityI)
        show "length (map (\<lambda>p. case find (\<lambda>x. vname x = vname p) cs of Some x \<Rightarrow> x | None \<Rightarrow> p) (M[i := c]))
            = length (map (\<lambda>p. case find (\<lambda>x. vname x = vname p) (c # cs) of Some x \<Rightarrow> x | None \<Rightarrow> p) M)"
          by simp
      next
        fix j
        assume "j < length (map (\<lambda>p. case find (\<lambda>x. vname x = vname p) cs of Some x \<Rightarrow> x | None \<Rightarrow> p) (M[i := c]))"
        then have j: "j < length M" by simp
        show "map (\<lambda>p. case find (\<lambda>x. vname x = vname p) cs of Some x \<Rightarrow> x | None \<Rightarrow> p) (M[i := c]) ! j
            = map (\<lambda>p. case find (\<lambda>x. vname x = vname p) (c # cs) of Some x \<Rightarrow> x | None \<Rightarrow> p) M ! j"
        proof (cases "j = i")
          case True
          with i nm fresh show ?thesis by (simp add: find_None_name)
        next
          case False
          with j i Cons.prems(1) have "vname (M ! j) \<noteq> vname (M ! i)"
            by (metis distinct_conv_nth length_map nth_map)
          moreover from False have "M[i := c] ! j = M ! j" by simp
          ultimately show ?thesis using j nm by (simp split: option.splits)
        qed
      qed
      moreover have "filter (\<lambda>x. vname x \<notin> vname ` set (M[i := c])) cs
          = filter (\<lambda>x. vname x \<notin> vname ` set M) (c # cs)"
        using sets inM by simp
      ultimately show ?thesis by (simp add: mergeVariables_spec_def)
    qed
    finally show ?thesis .
  qed
qed

text \<open>
  C6, as first stated, for every parent and child list. It fails when a name is repeated
  within a list: of two child entries of one name only the last is kept, and of two
  parent entries of one name only the first is replaced.
\<close>

theorem mergeVariables_duplicates_counterexample:
  "mergeVariables [] [tv ''a'' TString, tv ''a'' TNumber] = [tv ''a'' TNumber]
   \<and> mergeVariables [] [tv ''a'' TString, tv ''a'' TNumber]
       \<noteq> mergeVariables_spec [] [tv ''a'' TString, tv ''a'' TNumber]
   \<and> mergeVariables [tv ''a'' TString, tv ''a'' TNumber] [tv ''a'' TDate]
       = [tv ''a'' TDate, tv ''a'' TNumber]
   \<and> mergeVariables [tv ''a'' TString, tv ''a'' TNumber] [tv ''a'' TDate]
       \<noteq> mergeVariables_spec [tv ''a'' TString, tv ''a'' TNumber] [tv ''a'' TDate]"
  by (simp add: mergeVariables_def mergeVariables_spec_def tv_def)

text \<open>
  C6, amended. When no name is repeated within the parent list or within the child
  list, the merged list keeps the parent entries in their order, a parent entry whose
  name a child entry has is replaced in its place by that child entry, and the child
  entries with a new name follow in the order of the child.
\<close>

theorem mergeVariables_order:
  assumes "distinct (map vname parentVars)" and "distinct (map vname childVars)"
  shows "mergeVariables parentVars childVars = mergeVariables_spec parentVars childVars"
  using assms by (simp add: mergeVariables_def mergeVariables_loop_spec)

theorem mergeVariables_order_witness:
  "mergeVariables [tv ''a'' TString, tv ''b'' TString, tv ''c'' TString] [tv ''d'' TNumber, tv ''b'' TNumber, tv ''e'' TDate]
     = [tv ''a'' TString, tv ''b'' TNumber, tv ''c'' TString, tv ''d'' TNumber, tv ''e'' TDate]"
proof -
  have "distinct (map vname [tv ''a'' TString, tv ''b'' TString, tv ''c'' TString])"
    by (simp add: tv_def)
  moreover have "distinct (map vname [tv ''d'' TNumber, tv ''b'' TNumber, tv ''e'' TDate])"
    by (simp add: tv_def)
  ultimately have "mergeVariables [tv ''a'' TString, tv ''b'' TString, tv ''c'' TString] [tv ''d'' TNumber, tv ''b'' TNumber, tv ''e'' TDate]
     = mergeVariables_spec [tv ''a'' TString, tv ''b'' TString, tv ''c'' TString] [tv ''d'' TNumber, tv ''b'' TNumber, tv ''e'' TDate]"
    by (rule mergeVariables_order)
  then show ?thesis by (simp add: mergeVariables_spec_def tv_def)
qed

subsection \<open>mergeContent\<close>

text \<open>
  C7. Every splice marker in the content of the child should be replaced by the content
  of the parent side. The replacement is given to \<open>replace\<close> as a string, so its
  dollar patterns are expanded: a parent content with two dollar signs in a row is
  spliced with one, and \<open>$&\<close> in it is spliced as the marker itself.
\<close>

theorem mergeContent_dollar_patterns:
  "mergeContent ''a$$b'' ''{{> parent}}'' = ''a$b''
   \<and> mergeContent ''a$&b'' ''{{> parent}}'' = ''a{{> parent}}b''"
  by code_simp

text \<open>Without a dollar sign in the parent content the replacement is the parent
  content itself.\<close>

lemma expand_replacement_no_dollar:
  "CHR ''$'' \<notin> set replacement \<Longrightarrow>
   expand_replacement replacement matched leading trailing = replacement"
  by (induction replacement matched leading trailing rule: expand_replacement.induct) auto

text \<open>The scenario of the specification, and a splice through three generations.\<close>

lemma mergeContent_scenario:
  "mergeContent ''BASE'' (''{{> parent}}'' @ [CHR 0x0A] @ ''EXTRA'') = ''BASE'' @ [CHR 0x0A] @ ''EXTRA''"
  by code_simp

lemma resolveTemplate_three_generations:
  "map_option fst (resolveTemplate \<lparr> resolvedCache = [], templateGetter = Some store3 \<rparr> ''leaf'')
   = Some (Inr ((mk ''leaf'' (Some ''mid'') ''LMR'')\<lparr> tags := Some [] \<rparr>))"
  by code_simp

subsection \<open>mergeTemplates and the parent field\<close>

lemma mergeTemplates_fields:
  "parent (mergeTemplates p c) = parent c \<and> tid (mergeTemplates p c) = tid c
   \<and> tname (mergeTemplates p c) = tname c \<and> category (mergeTemplates p c) = category c
   \<and> version (mergeTemplates p c) = version c \<and> description (mergeTemplates p c) = description c"
  by (simp add: mergeTemplates_def Let_def)

lemma chain_loop_extends:
  assumes "chain_loop g a ch vis cur = Some r"
  shows "case r of Inl e \<Rightarrow> True | Inr c \<Rightarrow> (\<exists>ext. c = ch @ ext)"
  using assms
proof (induction rule: chain_loop.raw_induct [rotated, consumes 1, case_names step])
  case (step loop g a ch vis cur r)
  show ?case
  proof (cases "g cur")
    case None
    with step.hyps show ?thesis by auto
  next
    case (Some t)
    show ?thesis
    proof (cases "has_parent t")
      case False
      with Some step.hyps show ?thesis by auto
    next
      case True
      show ?thesis
      proof (cases "the (parent t) \<in> vis")
        case True
        with Some \<open>has_parent t\<close> step.hyps show ?thesis by auto
      next
        case False
        with Some \<open>has_parent t\<close> step.hyps
        have "loop g a (ch @ [the (parent t)]) (insert (the (parent t)) vis) (the (parent t)) = Some r"
          by simp
        from step.IH [OF this] show ?thesis by (auto split: sum.splits)
      qed
    qed
  qed
qed

lemma getInheritanceChain_with_parent:
  assumes "g i = Some t" and "has_parent t" and "getInheritanceChain g i = Some (Inr chain)"
  shows "\<exists>ext. chain = i # the (parent t) # ext"
proof -
  from assms have "chain_loop g i ([i] @ [the (parent t)]) (insert (the (parent t)) {i}) (the (parent t))
      = Some (Inr chain)"
    by (subst (asm) getInheritanceChain_def, subst (asm) chain_loop.simps) (simp split: if_splits)
  from chain_loop_extends [OF this] show ?thesis by simp
qed

lemma merge_chain_last:
  "merge_chain g (xs @ [i]) init = Inr (Some r) \<Longrightarrow> g i = Some t \<Longrightarrow> xs \<noteq> [] \<or> init \<noteq> None
   \<Longrightarrow> \<exists>acc. r = mergeTemplates acc t"
proof (induction xs arbitrary: init)
  case Nil
  then show ?case by (cases init) auto
next
  case (Cons x xs)
  from Cons.prems(1) obtain cur where cur: "g x = Some cur"
    by (cases "g x") auto
  with Cons.prems(1)
  have "merge_chain g (xs @ [i])
      (Some (case init of None \<Rightarrow> cur | Some r' \<Rightarrow> mergeTemplates r' cur)) = Inr (Some r)"
    by simp
  from Cons.IH [OF this Cons.prems(2)] show ?case by simp
qed

text \<open>
  C10. The merged template takes its parent field from the child, and with it the id,
  name, category, version and description. So the template that \<open>resolveTemplate\<close>
  returns for a template with a parent still carries the parent id of that template.
\<close>

theorem resolveTemplate_keeps_parent:
  "parent (mergeTemplates p c) = parent c \<and> tid (mergeTemplates p c) = tid c
   \<and> tname (mergeTemplates p c) = tname c \<and> category (mergeTemplates p c) = category c
   \<and> version (mergeTemplates p c) = version c \<and> description (mergeTemplates p c) = description c
   \<and> (map_of (resolvedCache st) i = None \<and> templateGetter st = Some g \<and> g i = Some t
        \<and> has_parent t \<and> resolveTemplate st i = Some (Inr r, st')
      \<longrightarrow> parent r = parent t \<and> parent r \<noteq> None \<and> tid r = tid t \<and> tname r = tname t
          \<and> category r = category t \<and> version r = version t \<and> description r = description t)"
proof -
  have "parent r = parent t \<and> parent r \<noteq> None \<and> tid r = tid t \<and> tname r = tname t
          \<and> category r = category t \<and> version r = version t \<and> description r = description t"
    if miss: "map_of (resolvedCache st) i = None" and getter: "templateGetter st = Some g"
      and leaf: "g i = Some t" and hp: "has_parent t"
      and res: "resolveTemplate st i = Some (Inr r, st')"
  proof -
    from res miss getter leaf hp obtain chain where
      chain: "getInheritanceChain g i = Some (Inr chain)"
      and merged: "merge_chain g (rev chain) None = Inr (Some r)"
      by (auto simp: resolveTemplate_def split: option.splits sum.splits)
    from getInheritanceChain_with_parent [OF leaf hp chain] obtain ext
      where "chain = i # the (parent t) # ext" by blast
    then have "rev chain = (rev ext @ [the (parent t)]) @ [i]" by simp
    with merged have "merge_chain g ((rev ext @ [the (parent t)]) @ [i]) None = Inr (Some r)"
      by simp
    from merge_chain_last [OF this leaf] obtain acc where "r = mergeTemplates acc t" by auto
    with hp show ?thesis
      by (cases "parent t") (simp_all add: mergeTemplates_fields has_parent_def)
  qed
  then show ?thesis using mergeTemplates_fields [of p c] by blast
qed

theorem resolveTemplate_keeps_parent_witness:
  "map_option fst (resolveTemplate \<lparr> resolvedCache = [], templateGetter = Some store3 \<rparr> ''leaf'')
     = Some (Inr ((mk ''leaf'' (Some ''mid'') ''LMR'')\<lparr> tags := Some [] \<rparr>))
   \<and> parent ((mk ''leaf'' (Some ''mid'') ''LMR'')\<lparr> tags := Some [] \<rparr>) = Some ''mid''
   \<and> tid ((mk ''leaf'' (Some ''mid'') ''LMR'')\<lparr> tags := Some [] \<rparr>) = ''leaf''"
proof -
  let ?st = "\<lparr> resolvedCache = [], templateGetter = Some store3 \<rparr>"
  let ?r = "(mk ''leaf'' (Some ''mid'') ''LMR'')\<lparr> tags := Some [] \<rparr>"
  let ?t = "mk ''leaf'' (Some ''mid'') ''L{{> parent}}''"
  have ev: "map_option fst (resolveTemplate ?st ''leaf'') = Some (Inr ?r)"
    by code_simp
  then obtain st' where res: "resolveTemplate ?st ''leaf'' = Some (Inr ?r, st')"
    by (cases "resolveTemplate ?st ''leaf''") auto
  have miss: "map_of (resolvedCache ?st) ''leaf'' = None" by simp
  have getter: "templateGetter ?st = Some store3" by simp
  have leaf: "store3 ''leaf'' = Some ?t" by (simp add: store3_def)
  have hp: "has_parent ?t" by (simp add: has_parent_def mk_def)
  from resolveTemplate_keeps_parent [of ?t ?t ?st "''leaf''" store3 ?t ?r st']
    miss getter leaf hp res
  have "parent ?r = parent ?t \<and> tid ?r = tid ?t" by blast
  with ev show ?thesis by (simp add: mk_def)
qed

subsection \<open>getInheritanceChain\<close>

lemma revisitsI:
  "i < j \<Longrightarrow> ancestor g a j \<noteq> None \<Longrightarrow> ancestor g a i = ancestor g a j \<Longrightarrow> revisits g a"
  unfolding revisits_def by blast

lemma ancestor_defined_below:
  "ancestor g a j \<noteq> None \<Longrightarrow> i \<le> j \<Longrightarrow> ancestor g a i \<noteq> None"
proof (induction j)
  case 0
  then show ?case by simp
next
  case (Suc j)
  show ?case
  proof (cases "i = Suc j")
    case True
    with Suc.prems show ?thesis by simp
  next
    case False
    with Suc.prems have "i \<le> j" by simp
    moreover from Suc.prems(1) have "ancestor g a j \<noteq> None" by (auto split: option.splits)
    ultimately show ?thesis using Suc.IH by simp
  qed
qed

lemma chain_loop_step:
  assumes "ancestor g a k = Some cur"
  shows "chain_loop g i ch vis cur =
     (case ancestor g a (Suc k) of
        None \<Rightarrow> Some (Inr ch)
      | Some p \<Rightarrow> if p \<in> vis then Some (Inl (CircularInheritance i p))
                  else chain_loop g i (ch @ [p]) (insert p vis) p)"
proof (cases "g cur")
  case None
  with assms show ?thesis by (subst chain_loop.simps) (simp add: parent_id_def)
next
  case (Some t)
  show ?thesis
  proof (cases "has_parent t")
    case False
    with Some assms show ?thesis by (subst chain_loop.simps) (simp add: parent_id_def)
  next
    case True
    then obtain p where "parent t = Some p" by (cases "parent t") (auto simp: has_parent_def)
    with True Some assms show ?thesis by (subst chain_loop.simps) (simp add: parent_id_def)
  qed
qed

lemma ancestors_upto_Suc:
  "ancestors_upto g a (Suc k) = ancestors_upto g a k @ [the (ancestor g a (Suc k))]"
  by (simp add: ancestors_upto_def)

lemma chain_loop_run:
  assumes "\<forall>i \<le> m. ancestor g a i \<noteq> None" and "distinct (ancestors_upto g a m)"
  shows "k \<le> m \<Longrightarrow>
     chain_loop g i (ancestors_upto g a k) (set (ancestors_upto g a k)) (the (ancestor g a k))
     = chain_loop g i (ancestors_upto g a m) (set (ancestors_upto g a m)) (the (ancestor g a m))"
proof (induction "m - k" arbitrary: k)
  case 0
  then show ?case by simp
next
  case (Suc d)
  then have km: "Suc k \<le> m" by simp
  with assms(1) have "ancestor g a k \<noteq> None" and "ancestor g a (Suc k) \<noteq> None"
    by auto
  then obtain cur p where cur: "ancestor g a k = Some cur"
    and p: "ancestor g a (Suc k) = Some p"
    by blast
  have "take (Suc (Suc k)) (ancestors_upto g a m) = ancestors_upto g a (Suc k)"
    using km by (simp add: ancestors_upto_def take_map del: upt_Suc)
  with distinct_take [OF assms(2), of "Suc (Suc k)"]
  have "distinct (ancestors_upto g a (Suc k))"
    by simp
  with p have fresh: "p \<notin> set (ancestors_upto g a k)"
    by (simp add: ancestors_upto_Suc)
  have "chain_loop g i (ancestors_upto g a k) (set (ancestors_upto g a k)) (the (ancestor g a k))
      = chain_loop g i (ancestors_upto g a k @ [p]) (insert p (set (ancestors_upto g a k))) p"
    using chain_loop_step [OF cur] cur p fresh by simp
  also have "\<dots> = chain_loop g i (ancestors_upto g a (Suc k)) (set (ancestors_upto g a (Suc k)))
      (the (ancestor g a (Suc k)))"
    using p by (simp add: ancestors_upto_Suc)
  also have "\<dots> = chain_loop g i (ancestors_upto g a m) (set (ancestors_upto g a m))
      (the (ancestor g a m))"
    using Suc.hyps(1) [of "Suc k"] Suc.hyps(2) km by simp
  finally show ?case .
qed

lemma getInheritanceChain_start:
  "getInheritanceChain g a
   = chain_loop g a (ancestors_upto g a 0) (set (ancestors_upto g a 0)) (the (ancestor g a 0))"
  by (simp add: getInheritanceChain_def ancestors_upto_def)

lemma getInheritanceChain_cyclic:
  assumes "revisits g a"
  shows "\<exists>j p. ancestor g a (Suc j) = Some p \<and> p \<in> set (ancestors_upto g a j)
      \<and> distinct (ancestors_upto g a j)
      \<and> getInheritanceChain g a = Some (Inl (CircularInheritance a p))"
proof -
  define R where "R j \<longleftrightarrow> (\<exists>i<j. ancestor g a j \<noteq> None \<and> ancestor g a i = ancestor g a j)" for j
  from assms have ex: "\<exists>j. R j" by (auto simp: revisits_def R_def)
  define n where "n = (LEAST j. R j)"
  from ex have Rn: "R n" unfolding n_def by (rule LeastI_ex)
  have least: "\<And>j. j < n \<Longrightarrow> \<not> R j" unfolding n_def by (rule not_less_Least)
  from Rn obtain i0 where i0: "i0 < n" "ancestor g a n \<noteq> None" "ancestor g a i0 = ancestor g a n"
    by (auto simp: R_def)
  then obtain m where n: "n = Suc m" by (cases n) auto
  from i0(2) obtain p where p: "ancestor g a (Suc m) = Some p" using n by auto
  have defd: "\<forall>i \<le> m. ancestor g a i \<noteq> None"
    using ancestor_defined_below [OF i0(2)] n by simp
  have inj: "inj_on (\<lambda>i. the (ancestor g a i)) {0..<Suc m}"
  proof (rule inj_onI)
    fix x y
    assume x: "x \<in> {0..<Suc m}" and y: "y \<in> {0..<Suc m}"
      and eq: "the (ancestor g a x) = the (ancestor g a y)"
    from x y defd have dx: "ancestor g a x \<noteq> None" and dy: "ancestor g a y \<noteq> None" by auto
    with eq have e: "ancestor g a x = ancestor g a y" by auto
    show "x = y"
    proof (rule ccontr)
      assume "x \<noteq> y"
      then consider "x < y" | "y < x" by linarith
      then show False
      proof cases
        case 1
        with e dy have "R y" by (auto simp: R_def)
        with least y n show False by auto
      next
        case 2
        with e dx have "R x" by (auto simp: R_def)
        with least x n show False by auto
      qed
    qed
  qed
  then have dist: "distinct (ancestors_upto g a m)"
    by (simp add: ancestors_upto_def distinct_map del: upt_Suc)
  from i0 n p have "p = the (ancestor g a i0)" "i0 \<in> set [0..<Suc m]" by auto
  then have mem: "p \<in> set (ancestors_upto g a m)"
    unfolding ancestors_upto_def set_map by (rule image_eqI)
  from defd obtain cur where cur: "ancestor g a m = Some cur" by auto
  have "getInheritanceChain g a
      = chain_loop g a (ancestors_upto g a m) (set (ancestors_upto g a m)) (the (ancestor g a m))"
    using chain_loop_run [OF defd dist, of 0 a] by (simp add: getInheritanceChain_start)
  also have "\<dots> = Some (Inl (CircularInheritance a p))"
    using chain_loop_step [OF cur] cur p mem by simp
  finally show ?thesis using p mem dist by blast
qed

lemma ancestor_in_dom:
  assumes "ancestor g a (Suc n) \<noteq> None"
  shows "the (ancestor g a n) \<in> dom g"
  using assms by (auto simp: parent_id_def split: option.splits)

lemma acyclic_chain_ends:
  assumes "\<not> revisits g a" and "finite (dom g)"
  shows "\<exists>m. ancestor g a (Suc m) = None"
proof (rule ccontr)
  assume "\<not> (\<exists>m. ancestor g a (Suc m) = None)"
  then have suc: "ancestor g a (Suc m) \<noteq> None" for m by (rule contrapos_nn) (rule exI)
  have all: "ancestor g a n \<noteq> None" for n
    using suc [of "n - 1"] by (cases n) simp_all
  have "inj (\<lambda>n. the (ancestor g a n))"
  proof (rule injI)
    fix x y
    assume eq: "the (ancestor g a x) = the (ancestor g a y)"
    with all [of x] all [of y] have e: "ancestor g a x = ancestor g a y" by auto
    show "x = y"
    proof (rule ccontr)
      assume "x \<noteq> y"
      then consider "x < y" | "y < x" by linarith
      then have "revisits g a"
      proof cases
        case 1
        from revisitsI [OF 1 all [of y] e] show ?thesis .
      next
        case 2
        from revisitsI [OF 2 all [of x] e [symmetric]] show ?thesis .
      qed
      with assms(1) show False by simp
    qed
  qed
  moreover have "range (\<lambda>n. the (ancestor g a n)) \<subseteq> dom g"
    using ancestor_in_dom [OF all] by blast
  then have "finite (range (\<lambda>n. the (ancestor g a n)))"
    using assms(2) by (rule finite_subset)
  ultimately have "finite (UNIV :: nat set)" by (rule finite_imageD [rotated])
  then show False by simp
qed

lemma getInheritanceChain_acyclic:
  assumes "\<not> revisits g a" and "finite (dom g)"
  shows "\<exists>m. ancestor g a (Suc m) = None \<and> distinct (ancestors_upto g a m)
      \<and> getInheritanceChain g a = Some (Inr (ancestors_upto g a m))"
proof -
  define m where "m = (LEAST m. ancestor g a (Suc m) = None)"
  from acyclic_chain_ends [OF assms] have stop: "ancestor g a (Suc m) = None"
    unfolding m_def by (rule LeastI_ex)
  have least: "\<And>j. j < m \<Longrightarrow> ancestor g a (Suc j) \<noteq> None"
    unfolding m_def by (rule not_less_Least)
  have defd: "\<forall>i \<le> m. ancestor g a i \<noteq> None"
  proof (intro allI impI)
    fix i assume "i \<le> m"
    then show "ancestor g a i \<noteq> None" using least [of "i - 1"] by (cases i) auto
  qed
  have "inj_on (\<lambda>i. the (ancestor g a i)) {0..<Suc m}"
  proof (rule inj_onI)
    fix x y
    assume x: "x \<in> {0..<Suc m}" and y: "y \<in> {0..<Suc m}"
      and eq: "the (ancestor g a x) = the (ancestor g a y)"
    from x y defd have dx: "ancestor g a x \<noteq> None" and dy: "ancestor g a y \<noteq> None" by auto
    with eq have e: "ancestor g a x = ancestor g a y" by auto
    show "x = y"
    proof (rule ccontr)
      assume "x \<noteq> y"
      then consider "x < y" | "y < x" by linarith
      then have "revisits g a"
      proof cases
        case 1
        from revisitsI [OF 1 dy e] show ?thesis .
      next
        case 2
        from revisitsI [OF 2 dx e [symmetric]] show ?thesis .
      qed
      with assms(1) show False by simp
    qed
  qed
  then have dist: "distinct (ancestors_upto g a m)"
    by (simp add: ancestors_upto_def distinct_map del: upt_Suc)
  from defd obtain cur where cur: "ancestor g a m = Some cur" by auto
  have "getInheritanceChain g a
      = chain_loop g a (ancestors_upto g a m) (set (ancestors_upto g a m)) (the (ancestor g a m))"
    using chain_loop_run [OF defd dist, of 0 a] by (simp add: getInheritanceChain_start)
  also have "\<dots> = Some (Inr (ancestors_upto g a m))"
    using chain_loop_step [OF cur] cur stop by simp
  finally show ?thesis using stop dist by blast
qed

lemma revisits_has_parent:
  assumes "revisits g a"
  shows "\<exists>t. g a = Some t \<and> has_parent t"
proof -
  from assms obtain i j where "i < j" and "ancestor g a j \<noteq> None"
    by (auto simp: revisits_def)
  then have "ancestor g a (Suc 0) \<noteq> None"
    using ancestor_defined_below [of g a j "Suc 0"] by simp
  then show ?thesis
    by (auto simp: parent_id_def split: option.splits if_splits)
qed

lemma store3_parents:
  "parent_id store3 ''leaf'' = Some ''mid''" "parent_id store3 ''mid'' = Some ''root''"
  "parent_id store3 ''root'' = None"
  by (simp_all add: store3_def parent_id_def mk_def has_parent_def)

lemma store3_acyclic: "\<not> revisits store3 ''leaf''"
proof
  assume "revisits store3 ''leaf''"
  then obtain i j where ij: "i < j" and dj: "ancestor store3 ''leaf'' j \<noteq> None"
    and eq: "ancestor store3 ''leaf'' i = ancestor store3 ''leaf'' j"
    by (auto simp: revisits_def)
  have "j < 3"
  proof (rule ccontr)
    assume "\<not> j < 3"
    then have "Suc (Suc (Suc 0)) \<le> j" by simp
    from ancestor_defined_below [OF dj this] show False by (simp add: store3_parents)
  qed
  with ij consider "i = 0 \<and> j = Suc 0" | "i = 0 \<and> j = Suc (Suc 0)" | "i = Suc 0 \<and> j = Suc (Suc 0)"
    by linarith
  then show False using eq by cases (auto simp: store3_parents)
qed

text \<open>
  C5. When following parent links from an id comes back to an id already visited,
  \<open>getInheritanceChain\<close> returns the cycle error at the first repeated id, and no
  chain; \<open>resolveTemplate\<close>, on a cache miss, fails with the same error and leaves the
  cache as it was. When no id comes back, in a store with finitely many templates,
  the result is the sequence of ids from the leaf to the root, without repetition.
\<close>

theorem getInheritanceChain_cycle_or_chain:
  "(revisits g a \<longrightarrow>
      (\<exists>j p. ancestor g a (Suc j) = Some p \<and> p \<in> set (ancestors_upto g a j)
         \<and> distinct (ancestors_upto g a j)
         \<and> getInheritanceChain g a = Some (Inl (CircularInheritance a p))))
   \<and> (\<not> revisits g a \<and> finite (dom g) \<longrightarrow>
      (\<exists>m. ancestor g a (Suc m) = None \<and> distinct (ancestors_upto g a m)
         \<and> hd (ancestors_upto g a m) = a
         \<and> getInheritanceChain g a = Some (Inr (ancestors_upto g a m))))
   \<and> (revisits g a \<and> map_of (resolvedCache st) a = None \<and> templateGetter st = Some g \<longrightarrow>
      (\<exists>p. resolveTemplate st a = Some (Inl (CircularInheritance a p), st)))"
proof (intro conjI impI)
  assume "revisits g a"
  from getInheritanceChain_cyclic [OF this]
  show "\<exists>j p. ancestor g a (Suc j) = Some p \<and> p \<in> set (ancestors_upto g a j)
         \<and> distinct (ancestors_upto g a j)
         \<and> getInheritanceChain g a = Some (Inl (CircularInheritance a p))" .
next
  assume "\<not> revisits g a \<and> finite (dom g)"
  then have "\<not> revisits g a" and "finite (dom g)" by simp_all
  from getInheritanceChain_acyclic [OF this] obtain m where
    m: "ancestor g a (Suc m) = None" "distinct (ancestors_upto g a m)"
      "getInheritanceChain g a = Some (Inr (ancestors_upto g a m))" by blast
  have "hd (ancestors_upto g a m) = a"
    by (simp add: ancestors_upto_def hd_map upt_conv_Cons del: upt_Suc)
  with m show "\<exists>m. ancestor g a (Suc m) = None \<and> distinct (ancestors_upto g a m)
         \<and> hd (ancestors_upto g a m) = a
         \<and> getInheritanceChain g a = Some (Inr (ancestors_upto g a m))" by blast
next
  assume h: "revisits g a \<and> map_of (resolvedCache st) a = None \<and> templateGetter st = Some g"
  then have rv: "revisits g a" by simp
  from revisits_has_parent [OF rv] obtain t where t: "g a = Some t" "has_parent t" by blast
  from getInheritanceChain_cyclic [OF rv] obtain p where
    "getInheritanceChain g a = Some (Inl (CircularInheritance a p))" by blast
  with h t have "resolveTemplate st a = Some (Inl (CircularInheritance a p), st)"
    by (simp add: resolveTemplate_def)
  then show "\<exists>p. resolveTemplate st a = Some (Inl (CircularInheritance a p), st)" by blast
qed

theorem getInheritanceChain_cycle_or_chain_witness:
  "revisits store2 ''id1''
   \<and> (\<exists>p. getInheritanceChain store2 ''id1'' = Some (Inl (CircularInheritance ''id1'' p)))
   \<and> (\<exists>p. resolveTemplate \<lparr> resolvedCache = [], templateGetter = Some store2 \<rparr> ''id1''
          = Some (Inl (CircularInheritance ''id1'' p), \<lparr> resolvedCache = [], templateGetter = Some store2 \<rparr>))
   \<and> \<not> revisits store3 ''leaf'' \<and> finite (dom store3)
   \<and> (\<exists>m. getInheritanceChain store3 ''leaf'' = Some (Inr (ancestors_upto store3 ''leaf'' m)))"
proof -
  have "ancestor store2 ''id1'' (Suc (Suc 0)) = Some ''id1''"
    by (simp add: store2_def parent_id_def mk_def has_parent_def)
  then have rv: "revisits store2 ''id1''"
    using revisitsI [of 0 "Suc (Suc 0)" store2 "''id1''"] by simp
  have fin: "finite (dom store3)" unfolding store3_def by (rule finite_dom_map_of)
  note thm2 = getInheritanceChain_cycle_or_chain
    [of store2 "''id1''" "\<lparr> resolvedCache = [], templateGetter = Some store2 \<rparr>"]
  note thm3 = getInheritanceChain_cycle_or_chain
    [of store3 "''leaf''" "\<lparr> resolvedCache = [], templateGetter = Some store3 \<rparr>"]
  from thm2 rv have a: "\<exists>p. getInheritanceChain store2 ''id1'' = Some (Inl (CircularInheritance ''id1'' p))"
    by blast
  from thm2 rv have b: "\<exists>p. resolveTemplate \<lparr> resolvedCache = [], templateGetter = Some store2 \<rparr> ''id1''
          = Some (Inl (CircularInheritance ''id1'' p), \<lparr> resolvedCache = [], templateGetter = Some store2 \<rparr>)"
    by simp
  from thm3 store3_acyclic fin
  have c: "\<exists>m. getInheritanceChain store3 ''leaf'' = Some (Inr (ancestors_upto store3 ''leaf'' m))"
    by blast
  from rv a b store3_acyclic fin c show ?thesis by blast
qed

lemma getInheritanceChain_examples:
  "getInheritanceChain store2 ''id1'' = Some (Inl (CircularInheritance ''id1'' ''id1''))"
  "getInheritanceChain store3 ''leaf'' = Some (Inr [''leaf'', ''mid'', ''root''])"
  by code_simp+

end
